theory Spec2Isabelle
  imports Main
begin

section \<open>Strings\<close>

text \<open>
  A JavaScript string is modelled as a \<^typ>\<open>string\<close>: one \<^typ>\<open>char\<close> per code unit, for
  strings whose code units are below 256. Case mapping, white space and word characters
  are those of JavaScript on that range.
\<close>

definition replaceAll :: "char \<Rightarrow> char \<Rightarrow> string \<Rightarrow> string" where
  \<comment> \<open>\<open>s.replace(/c/g, d)\<close> for a single character \<open>c\<close>\<close>
  "replaceAll c d s = map (\<lambda>x. if x = c then d else x) s"

definition toLowerChar :: "char \<Rightarrow> char" where
  \<comment> \<open>the capital letters are \<open>A\<close> to \<open>Z\<close> and, above ASCII, 0xC0 to 0xDE without 0xD7\<close>
  "toLowerChar c =
     (let n = (of_char c :: nat)
      in if (65 \<le> n \<and> n \<le> 90) \<or> (192 \<le> n \<and> n \<le> 214) \<or> (216 \<le> n \<and> n \<le> 222)
         then char_of (n + 32) else c)"

definition toLowerCase :: "string \<Rightarrow> string" where
  "toLowerCase s = map toLowerChar s"

definition startsWith :: "string \<Rightarrow> string \<Rightarrow> bool" where
  \<comment> \<open>\<open>s.startsWith(p)\<close>\<close>
  "startsWith s p = (take (length p) s = p)"

definition endsWith :: "string \<Rightarrow> string \<Rightarrow> bool" where
  "endsWith s p = (length p \<le> length s \<and> drop (length s - length p) s = p)"

section \<open>The insertion-ordered Map of JavaScript\<close>

text \<open>
  A \<open>Map\<close> keeps its entries in the order in which their keys were first inserted;
  \<open>set\<close> on a key that is present replaces the value where the entry stands.
\<close>

type_synonym ('k, 'v) js_map = "('k \<times> 'v) list"

fun Map_set :: "'k \<Rightarrow> 'v \<Rightarrow> ('k, 'v) js_map \<Rightarrow> ('k, 'v) js_map" where
  "Map_set k v [] = [(k, v)]"
| "Map_set k v (e # m) = (if fst e = k then (k, v) # m else e # Map_set k v m)"

definition Map_new :: "('k \<times> 'v) list \<Rightarrow> ('k, 'v) js_map" where
  \<comment> \<open>\<open>new Map(entries)\<close>: \<open>set\<close> is called for each entry, in order\<close>
  "Map_new entries = foldl (\<lambda>m e. Map_set (fst e) (snd e) m) [] entries"

definition Map_has :: "'k \<Rightarrow> ('k, 'v) js_map \<Rightarrow> bool" where
  "Map_has k m = (k \<in> set (map fst m))"

definition Map_values :: "('k, 'v) js_map \<Rightarrow> 'v list" where
  "Map_values m = map snd m"


section \<open>GraphService\<close>

datatype NodeType = FILE | FUNCTION | API | COMPONENT

datatype EdgeType = IMPORTS | CALLS | DEFINES | EXPOSES | USED_BY

text \<open>
  \<open>metadata?: any\<close>: \<open>None\<close> when it is absent, otherwise the object's properties.
\<close>

record GraphNode =
  id_node :: string
  type_node :: NodeType
  label :: string
  metadata :: "(string \<times> string) list option"

record GraphEdge =
  source :: string
  target :: string
  type_edge :: EdgeType
  metadata_edge :: "(string \<times> string) list option"

record GraphData =
  nodes :: "GraphNode list"
  edges :: "GraphEdge list"

text \<open>
  What \<open>GRAPH_FILE\<close> holds on disk, as \<open>load\<close> sees it: no file, a file that
  \<open>JSON.parse\<close> rejects, a JSON value without a \<open>nodes\<close> array, or a graph document.
\<close>

datatype file_state = Missing | Unparsable | NoNodesArray | Document GraphData

type_synonym disk = "string \<Rightarrow> file_state"

datatype error = SyntaxError | TypeError

record GraphService =
  this_nodes :: "(string, GraphNode) js_map"
  this_edges :: "GraphEdge list"
  graphFile :: string

definition graphFileOf :: "string option \<Rightarrow> string" where
  \<comment> \<open>the path chosen by the constructor; an absent or empty \<open>projectId\<close> is falsy\<close>
  "graphFileOf projectId =
     (case projectId of
        None \<Rightarrow> ''data/graph.json''
      | Some p \<Rightarrow> if p = [] then ''data/graph.json'' else ''data/graph-'' @ p @ ''.json'')"

definition load :: "disk \<Rightarrow> GraphService \<Rightarrow> error + GraphService" where
  "load d this =
     (case d (graphFile this) of
        Missing \<Rightarrow> Inr this
      | Unparsable \<Rightarrow> Inl SyntaxError
      | NoNodesArray \<Rightarrow> Inl TypeError
      | Document dat \<Rightarrow>
          Inr (this\<lparr>this_nodes := Map_new (map (\<lambda>n. (id_node n, n)) (nodes dat)),
                     this_edges := edges dat\<rparr>))"

definition GraphService_new :: "disk \<Rightarrow> string option \<Rightarrow> error + GraphService" where
  \<comment> \<open>the constructor: the fields' initial values, then \<open>load\<close>\<close>
  "GraphService_new d projectId =
     load d \<lparr>this_nodes = [], this_edges = [], graphFile = graphFileOf projectId\<rparr>"

definition getGraph :: "GraphService \<Rightarrow> GraphData" where
  "getGraph this = \<lparr>nodes = Map_values (this_nodes this), edges = this_edges this\<rparr>"


definition addNode :: "GraphNode \<Rightarrow> GraphService \<times> disk \<Rightarrow> GraphService \<times> disk" where
  "addNode node = (\<lambda>(this, d).
     if \<not> Map_has (id_node node) (this_nodes this)
     then (this\<lparr>this_nodes := Map_set (id_node node) node (this_nodes this)\<rparr>, d)
     else (this, d))"





section \<open>ImpactAnalyzer: data\<close>

datatype Severity = LOW | MEDIUM | HIGH | CRITICAL

record AffectedFile =
  repoId :: string
  filePath :: string
  reason :: string
  context_hit :: "string option"

record ImpactResult =
  projectId :: string
  changedFile :: string
  changedRepo :: string
  affectedFiles :: "AffectedFile list"
  diff :: "(string \<times> string) option"
  isBreaking :: bool
  severity :: Severity
  explanation :: string
  timestamp :: string

section \<open>ImpactAnalyzer: findAffectedFiles\<close>

definition idRepoId :: "string \<Rightarrow> string" where
  \<comment> \<open>the first element of \<open>id.split(':')\<close>\<close>
  "idRepoId i = takeWhile (\<lambda>c. c \<noteq> CHR '':'') i"

definition idFilePath :: "string \<Rightarrow> string" where
  \<comment> \<open>the other elements of \<open>id.split(':')\<close>, joined by \<open>':'\<close> again\<close>
  "idFilePath i = drop 1 (dropWhile (\<lambda>c. c \<noteq> CHR '':'') i)"

definition basename :: "string \<Rightarrow> string" where
  \<comment> \<open>\<open>path.basename\<close> on POSIX: trailing slashes go, then what follows the last slash\<close>
  "basename p = rev (takeWhile (\<lambda>c. c \<noteq> CHR ''/'') (dropWhile (\<lambda>c. c = CHR ''/'') (rev p)))"

record walk_state =
  affected :: "AffectedFile list"
  visited :: "string set"
  queue :: "string list"

text \<open>The body of \<open>for (const edge of dependentEdges)\<close>.\<close>

definition visitEdge :: "string \<Rightarrow> string \<Rightarrow> GraphEdge \<Rightarrow> walk_state \<Rightarrow> walk_state" where
  "visitEdge changedNodeId sourceRepoId edge st =
     (if source edge \<notin> visited st then
        st\<lparr>visited := insert (source edge) (visited st),
           queue := queue st @ [source edge],
           affected :=
             (if idRepoId (source edge) \<noteq> sourceRepoId
              then affected st @
                [\<lparr>repoId = idRepoId (source edge), filePath = idFilePath (source edge),
                  reason = ''Imports '' @ basename changedNodeId, context_hit = None\<rparr>]
              else affected st)\<rparr>
      else st)"

fun forEdges :: "string \<Rightarrow> string \<Rightarrow> GraphEdge list \<Rightarrow> walk_state \<Rightarrow> walk_state" where
  "forEdges changedNodeId sourceRepoId [] st = st"
| "forEdges changedNodeId sourceRepoId (edge # es) st =
     forEdges changedNodeId sourceRepoId es (visitEdge changedNodeId sourceRepoId edge st)"

definition dependentEdges :: "GraphData \<Rightarrow> string \<Rightarrow> GraphEdge list" where
  "dependentEdges graph currentNodeId =
     filter (\<lambda>e. target e = currentNodeId \<and> type_edge e = IMPORTS) (edges graph)"

text \<open>One turn of \<open>while (queue.length > 0)\<close>, after \<open>queue.shift()\<close>.\<close>

definition whileBody :: "GraphData \<Rightarrow> string \<Rightarrow> string \<Rightarrow> string \<Rightarrow> string list \<Rightarrow> walk_state \<Rightarrow> walk_state" where
  "whileBody graph changedNodeId sourceRepoId currentNodeId rest st =
     forEdges changedNodeId sourceRepoId (dependentEdges graph currentNodeId) (st\<lparr>queue := rest\<rparr>)"

definition unvisited :: "GraphData \<Rightarrow> walk_state \<Rightarrow> nat" where
  \<comment> \<open>the termination measure's first part: edge sources not yet in \<open>visited\<close>\<close>
  "unvisited graph st = card (set (map source (edges graph)) - visited st)"

lemma visitEdge_measure:
  assumes "source edge \<in> S" "finite S"
  shows "card (S - visited (visitEdge c r edge st)) + length (queue (visitEdge c r edge st))
       = card (S - visited st) + length (queue st)"
proof (cases "source edge \<in> visited st")
  case True
  then show ?thesis by (simp add: visitEdge_def)
next
  case False
  with assms have "source edge \<in> S - visited st" by simp
  moreover have "finite (S - visited st)" using assms by simp
  ultimately have "card (S - visited st) = Suc (card (S - visited st - {source edge}))"
    by (metis card.remove)
  moreover have "S - insert (source edge) (visited st) = S - visited st - {source edge}"
    by auto
  ultimately show ?thesis using False by (simp add: visitEdge_def)
qed

lemma forEdges_measure:
  "set (map source es) \<subseteq> S \<Longrightarrow> finite S \<Longrightarrow>
   card (S - visited (forEdges c r es st)) + length (queue (forEdges c r es st))
     = card (S - visited st) + length (queue st)"
proof (induction es arbitrary: st)
  case Nil
  then show ?case by simp
next
  case (Cons e es)
  then show ?case using visitEdge_measure [of e S c r st] by simp
qed

lemma whileBody_measure:
  "unvisited graph (whileBody graph c r cur rest st) + length (queue (whileBody graph c r cur rest st))
     = unvisited graph st + length rest"
  unfolding unvisited_def whileBody_def
  using forEdges_measure [of "dependentEdges graph cur" "set (map source (edges graph))" c r
      "st\<lparr>queue := rest\<rparr>"]
  by (auto simp: dependentEdges_def)

function whileQueue :: "GraphData \<Rightarrow> string \<Rightarrow> string \<Rightarrow> walk_state \<Rightarrow> walk_state" where
  "whileQueue graph changedNodeId sourceRepoId st =
     (case queue st of
        [] \<Rightarrow> st
      | currentNodeId # rest \<Rightarrow>
          whileQueue graph changedNodeId sourceRepoId
            (whileBody graph changedNodeId sourceRepoId currentNodeId rest st))"
  by pat_completeness auto
termination
proof (relation "measure (\<lambda>(graph, c, r, st). unvisited graph st + length (queue st))")
  show "wf (measure (\<lambda>(graph, c, r, st). unvisited graph st + length (queue st)))" by simp
next
  fix graph :: GraphData and c r :: string and st :: walk_state and cur rest
  assume "queue st = cur # rest"
  then show "((graph, c, r, whileBody graph c r cur rest st), (graph, c, r, st))
      \<in> measure (\<lambda>(graph, c, r, st). unvisited graph st + length (queue st))"
    using whileBody_measure [of graph c r cur rest st] by simp
qed

declare whileQueue.simps [simp del]

text \<open>The state before the loop: nothing found, the changed node visited and queued.\<close>

definition walkStart :: "string \<Rightarrow> walk_state" where
  "walkStart changedNodeId = \<lparr>affected = [], visited = {changedNodeId}, queue = [changedNodeId]\<rparr>"

definition findAffectedFiles :: "GraphData \<Rightarrow> string \<Rightarrow> string \<Rightarrow> AffectedFile list" where
  "findAffectedFiles graph changedNodeId sourceRepoId =
     affected (whileQueue graph changedNodeId sourceRepoId (walkStart changedNodeId))"

text \<open>
  The successive values of \<open>currentNodeId\<close>: the nodes the loop takes from the queue,
  in order.
\<close>

function visitOrder :: "GraphData \<Rightarrow> string \<Rightarrow> string \<Rightarrow> walk_state \<Rightarrow> string list" where
  "visitOrder graph changedNodeId sourceRepoId st =
     (case queue st of
        [] \<Rightarrow> []
      | currentNodeId # rest \<Rightarrow>
          currentNodeId # visitOrder graph changedNodeId sourceRepoId
            (whileBody graph changedNodeId sourceRepoId currentNodeId rest st))"
  by pat_completeness auto
termination
proof (relation "measure (\<lambda>(graph, c, r, st). unvisited graph st + length (queue st))")
  show "wf (measure (\<lambda>(graph, c, r, st). unvisited graph st + length (queue st)))" by simp
next
  fix graph :: GraphData and c r :: string and st :: walk_state and cur rest
  assume "queue st = cur # rest"
  then show "((graph, c, r, whileBody graph c r cur rest st), (graph, c, r, st))
      \<in> measure (\<lambda>(graph, c, r, st). unvisited graph st + length (queue st))"
    using whileBody_measure [of graph c r cur rest st] by simp
qed

declare visitOrder.simps [simp del]

section \<open>ImpactAnalyzer: searchForAffectedFiles\<close>

definition isWordChar :: "char \<Rightarrow> bool" where
  \<comment> \<open>the class \<open>\w\<close>\<close>
  "isWordChar c =
     (c \<in> set ''ABCDEFGHIJKLMNOPQRSTUVWXYZabcdefghijklmnopqrstuvwxyz0123456789_'')"

definition isSpaceChar :: "char \<Rightarrow> bool" where
  \<comment> \<open>what \<open>trim\<close> removes: space, the controls 0x09 to 0x0D, the no-break space\<close>
  "isSpaceChar c =
     (c \<in> set [CHR '' '', CHR 0x09, CHR 0x0A, CHR 0x0B, CHR 0x0C, CHR 0x0D, CHR 0xA0])"

definition trim :: "string \<Rightarrow> string" where
  "trim s = rev (dropWhile isSpaceChar (rev (dropWhile isSpaceChar s)))"

fun splitOn :: "char \<Rightarrow> string \<Rightarrow> string list" where
  "splitOn c [] = [[]]"
| "splitOn c (x # xs) =
     (if x = c then [] # splitOn c xs
      else (case splitOn c xs of [] \<Rightarrow> [[x]] | l # ls \<Rightarrow> (x # l) # ls))"

fun joinWith :: "string \<Rightarrow> string list \<Rightarrow> string" where
  "joinWith sep [] = []"
| "joinWith sep [x] = x"
| "joinWith sep (x # y # ys) = x @ sep @ joinWith sep (y # ys)"

function showNat :: "nat \<Rightarrow> string" where
  "showNat n =
     (if n < 10 then [''0123456789'' ! n]
      else showNat (n div 10) @ [''0123456789'' ! (n mod 10)])"
  by pat_completeness auto
termination
  by (relation "measure (\<lambda>n. n)") auto

declare showNat.simps [simp del]

text \<open>
  The pattern built for an identifier \<open>fn\<close> is \<open>fn\<close> itself, every special character
  escaped, with \<open>\b\<close> in front when \<open>fn\<close> starts with a word character and \<open>\b\<close> behind
  when it ends with one. \<open>wordBoundary prevWord rest\<close> is \<open>\b\<close> at a position whose
  previous character is a word character or not (\<open>prevWord\<close>) and whose input goes on
  with \<open>rest\<close>.
\<close>

definition wordBoundary :: "bool \<Rightarrow> string \<Rightarrow> bool" where
  "wordBoundary prevWord rest = (prevWord \<noteq> (case rest of [] \<Rightarrow> False | c # _ \<Rightarrow> isWordChar c))"

definition matchHere :: "string \<Rightarrow> bool \<Rightarrow> string \<Rightarrow> bool" where
  "matchHere fn prevWord s =
     (startsWith s fn \<and>
      (if fn \<noteq> [] \<and> isWordChar (hd fn) then wordBoundary prevWord s else True) \<and>
      (if fn \<noteq> [] \<and> isWordChar (last fn)
       then wordBoundary True (drop (length fn) s) else True))"

fun regexFrom :: "string \<Rightarrow> bool \<Rightarrow> string \<Rightarrow> bool" where
  "regexFrom fn prevWord [] = matchHere fn prevWord []"
| "regexFrom fn prevWord (c # cs) = (matchHere fn prevWord (c # cs) \<or> regexFrom fn (isWordChar c) cs)"

definition regexTest :: "string \<Rightarrow> string \<Rightarrow> bool" where
  \<comment> \<open>\<open>regex.test(s)\<close>\<close>
  "regexTest fn s = regexFrom fn False s"

definition usage :: "string \<Rightarrow> nat \<Rightarrow> string" where
  "usage fn i = fn @ '' (line '' @ showNat (i + 1) @ '')''"

text \<open>
  \<open>for (let i = 0; i < lines.length; i++)\<close>: the index at which the loop pushes a hit
  and breaks, if it does.
\<close>

fun forLines :: "string \<Rightarrow> string set \<Rightarrow> string list \<Rightarrow> nat \<Rightarrow> nat option" where
  "forLines fn addedUsagesForFile [] i = None"
| "forLines fn addedUsagesForFile (l # ls) i =
     (if regexTest fn l \<and> usage fn i \<notin> addedUsagesForFile then Some i
      else forLines fn addedUsagesForFile ls (Suc i))"

definition contextSnippet :: "string list \<Rightarrow> nat \<Rightarrow> string" where
  "contextSnippet lines i =
     (let startLine = i - 2;
          endLine = min (length lines - 1) (i + 2);
          slice = take (endLine + 1 - startLine) (drop startLine lines)
      in joinWith [CHR 0x0A]
           (map (\<lambda>(l, idx).
                  let originalLineNum = startLine + idx + 1;
                      marker = (if originalLineNum = i + 1 then ''> '' else ''  '')
                  in marker @ showNat originalLineNum @ '': '' @ l)
              (zip slice [0..<length slice])))"

text \<open>\<open>for (const fn of functionList)\<close>: the hits pushed for one file, in order.\<close>

fun forFunctions ::
  "string \<Rightarrow> string \<Rightarrow> string \<Rightarrow> string list \<Rightarrow> string set \<Rightarrow> AffectedFile list" where
  "forFunctions fileRepoId filePathStr fileContent [] addedUsagesForFile = []"
| "forFunctions fileRepoId filePathStr fileContent (fn # fns) addedUsagesForFile =
     (case (if regexTest fn fileContent
            then forLines fn addedUsagesForFile (splitOn (CHR 0x0A) fileContent) 0
            else None) of
        None \<Rightarrow> forFunctions fileRepoId filePathStr fileContent fns addedUsagesForFile
      | Some i \<Rightarrow>
          \<lparr>repoId = fileRepoId,
           filePath = replaceAll (CHR 0x5C) (CHR ''/'') filePathStr,
           reason = ''Uses modified function: '' @ fn,
           context_hit = Some (contextSnippet (splitOn (CHR 0x0A) fileContent) i)\<rparr>
          # forFunctions fileRepoId filePathStr fileContent fns
              (insert (usage fn i) addedUsagesForFile))"

text \<open>
  The working copies on disk: \<open>readRepoFile fileRepoId filePathStr\<close> is the content of
  the file under \<open>repos/<fileRepoId>\<close>, and \<open>None\<close> when it does not exist or cannot
  be read.
\<close>

type_synonym repo_files = "string \<Rightarrow> string \<Rightarrow> string option"

text \<open>The body of the loop over the candidate files, after the \<open>processedFiles\<close> test.\<close>

definition scanFile :: "repo_files \<Rightarrow> string list \<Rightarrow> GraphNode \<Rightarrow> AffectedFile list" where
  "scanFile readRepoFile functionList file =
     (let fileRepoId = idRepoId (id_node file);
          filePathStr = idFilePath (id_node file)
      in case readRepoFile fileRepoId filePathStr of
           None \<Rightarrow> []
         | Some fileContent \<Rightarrow> forFunctions fileRepoId filePathStr fileContent functionList {})"

definition normalizedId :: "GraphNode \<Rightarrow> string" where
  "normalizedId file = toLowerCase (replaceAll (CHR 0x5C) (CHR ''/'') (id_node file))"

fun forFiles :: "repo_files \<Rightarrow> string list \<Rightarrow> GraphNode list \<Rightarrow> string set \<Rightarrow> AffectedFile list" where
  "forFiles readRepoFile functionList [] processedFiles = []"
| "forFiles readRepoFile functionList (file # files) processedFiles =
     (if normalizedId file \<in> processedFiles
      then forFiles readRepoFile functionList files processedFiles
      else scanFile readRepoFile functionList file
           @ forFiles readRepoFile functionList files (insert (normalizedId file) processedFiles))"

definition sourceExtension :: "string \<Rightarrow> bool" where
  \<comment> \<open>\<open>id.match(/\.(ts|tsx|js|jsx)$/)\<close>\<close>
  "sourceExtension i =
     (endsWith i ''.ts'' \<or> endsWith i ''.tsx'' \<or> endsWith i ''.js'' \<or> endsWith i ''.jsx'')"

definition functionListOf :: "string list \<Rightarrow> string list" where
  "functionListOf changedFunctions = filter (\<lambda>f. length f > 2) (map trim changedFunctions)"

definition otherRepoFiles :: "GraphData \<Rightarrow> string \<Rightarrow> GraphNode list" where
  "otherRepoFiles graph sourceRepoId =
     filter (\<lambda>n. type_node n = FILE \<and> \<not> startsWith (id_node n) sourceRepoId
                  \<and> sourceExtension (id_node n)) (nodes graph)"

definition limit :: nat where
  "limit = 500"

definition searchForAffectedFiles ::
  "repo_files \<Rightarrow> GraphData \<Rightarrow> string \<Rightarrow> string list \<Rightarrow> AffectedFile list" where
  "searchForAffectedFiles readRepoFile graph sourceRepoId changedFunctions =
     (let functionList = functionListOf changedFunctions
      in if functionList = [] then []
         else forFiles readRepoFile functionList (take limit (otherRepoFiles graph sourceRepoId)) {})"

text \<open>
  The files the loop does not skip at \<open>processedFiles\<close>: those whose working copy is
  looked up and searched.
\<close>

fun scannedFiles :: "GraphNode list \<Rightarrow> string set \<Rightarrow> GraphNode list" where
  "scannedFiles [] processedFiles = []"
| "scannedFiles (file # files) processedFiles =
     (if normalizedId file \<in> processedFiles then scannedFiles files processedFiles
      else file # scannedFiles files (insert (normalizedId file) processedFiles))"

section \<open>ImpactAnalyzer: analyzeFileChange\<close>

definition determineSeverity :: "nat \<Rightarrow> bool \<Rightarrow> Severity" where
  "determineSeverity affectedCount isBreaking' =
     (if isBreaking' \<and> affectedCount > 5 then CRITICAL
      else if isBreaking' \<and> affectedCount > 0 then HIGH
      else if affectedCount > 10 then HIGH
      else if affectedCount > 5 then MEDIUM
      else LOW)"

text \<open>\<open>now\<close> is what \<open>new Date().toISOString()\<close> gives at the return.\<close>

definition createEmptyResult :: "string \<Rightarrow> string \<Rightarrow> string \<Rightarrow> string \<Rightarrow> ImpactResult" where
  "createEmptyResult now projectId' repoId' filePath' =
     \<lparr>projectId = projectId', changedFile = filePath', changedRepo = repoId',
      affectedFiles = [], diff = None, isBreaking = False, severity = LOW,
      explanation = ''File not found in dependency graph'', timestamp = now\<rparr>"

definition possibleNodeIds :: "string \<Rightarrow> string \<Rightarrow> string list" where
  "possibleNodeIds repoId' filePath' =
     [repoId' @ '':'' @ replaceAll (CHR 0x5C) (CHR ''/'') filePath',
      repoId' @ '':'' @ filePath',
      repoId' @ '':'' @ replaceAll (CHR ''/'') (CHR 0x5C) filePath']"

text \<open>\<open>for (const nodeId of possibleNodeIds)\<close>: the node found and its id.\<close>

fun findChangedNode :: "GraphData \<Rightarrow> string list \<Rightarrow> (GraphNode \<times> string) option" where
  "findChangedNode graph [] = None"
| "findChangedNode graph (nodeId # rest) =
     (case find (\<lambda>n. id_node n = nodeId) (nodes graph) of
        Some changedNode \<Rightarrow> Some (changedNode, nodeId)
      | None \<Rightarrow> findChangedNode graph rest)"

text \<open>
  The outcome of the call to the text-generation service and of reading its answer:
  the call or \<open>JSON.parse\<close> threw; the answer held no \<open>{...}\<close>; or the parsed object,
  as the truth value of \<open>isBreaking\<close>, the \<open>explanation\<close> (empty when it is absent) and
  the \<open>changedFunctions\<close> (empty when they are absent).
\<close>

datatype ai_outcome = AIFailed | AINoJson | AIResult bool string "string list"

type_synonym classifier = "string \<Rightarrow> string \<Rightarrow> ai_outcome"

definition bothContents :: "string option \<Rightarrow> string option \<Rightarrow> (string \<times> string) option" where
  \<comment> \<open>\<open>oldContent && newContent\<close>: an absent or empty string is falsy\<close>
  "bothContents oldContent newContent =
     (case (oldContent, newContent) of
        (Some old, Some new) \<Rightarrow> if old \<noteq> [] \<and> new \<noteq> [] then Some (old, new) else None
      | _ \<Rightarrow> None)"

text \<open>
  The block \<open>if (oldContent && newContent) { ... }\<close>: the values of
  \<open>semanticAffectedFiles\<close>, \<open>isBreaking\<close> and \<open>explanation\<close> after it.
\<close>

definition aiAnalysis ::
  "repo_files \<Rightarrow> classifier \<Rightarrow> GraphData \<Rightarrow> string \<Rightarrow> string option \<Rightarrow> string option
     \<Rightarrow> AffectedFile list \<times> bool \<times> string" where
  "aiAnalysis readRepoFile generateContent graph repoId' oldContent newContent =
     (case bothContents oldContent newContent of
        None \<Rightarrow> ([], False, ''File modified'')
      | Some (old, new) \<Rightarrow>
          (case generateContent (take 2000 old) (take 2000 new) of
             AIFailed \<Rightarrow> ([], False, ''File modified'')
           | AINoJson \<Rightarrow> ([], False, ''File modified'')
           | AIResult breaking expl changedFunctions \<Rightarrow>
               (if changedFunctions \<noteq> []
                then searchForAffectedFiles readRepoFile graph repoId' changedFunctions
                else [],
                breaking,
                if expl = [] then ''Analyzed by AI'' else expl)))"

definition normalizedPath :: "string \<Rightarrow> string" where
  \<comment> \<open>\<open>filePath.replace(/\\/g, '/').toLowerCase()\<close>\<close>
  "normalizedPath p = toLowerCase (replaceAll (CHR 0x5C) (CHR ''/'') p)"

definition hitKey :: "AffectedFile \<Rightarrow> string" where
  \<comment> \<open>the key of a hit in the Map that removes the duplicates\<close>
  "hitKey f = repoId f @ '':'' @ normalizedPath (filePath f)"

definition uniqueAffectedFiles :: "AffectedFile list \<Rightarrow> AffectedFile list" where
  "uniqueAffectedFiles allAffectedFiles =
     Map_values (Map_new (map (\<lambda>f. (hitKey f, f)) allAffectedFiles))"

text \<open>\<open>analyzeFileChange\<close> once the graph is loaded.\<close>

definition analyzeGraph ::
  "repo_files \<Rightarrow> classifier \<Rightarrow> string \<Rightarrow> GraphData \<Rightarrow> string \<Rightarrow> string \<Rightarrow> string
     \<Rightarrow> string option \<Rightarrow> string option \<Rightarrow> ImpactResult" where
  "analyzeGraph readRepoFile generateContent now graph projectId' repoId' filePath'
       oldContent newContent =
     (case findChangedNode graph (possibleNodeIds repoId' filePath') of
        None \<Rightarrow> createEmptyResult now projectId' repoId' filePath'
      | Some (changedNode, changedNodeId) \<Rightarrow>
          (let graphAffectedFiles = findAffectedFiles graph changedNodeId repoId';
               (semanticAffectedFiles, breaking, expl) =
                  aiAnalysis readRepoFile generateContent graph repoId' oldContent newContent;
               allAffectedFiles = graphAffectedFiles @ semanticAffectedFiles;
               unique = uniqueAffectedFiles allAffectedFiles
           in if \<not> breaking
              then \<lparr>projectId = projectId', changedFile = filePath', changedRepo = repoId',
                    affectedFiles = [], diff = None, isBreaking = breaking, severity = LOW,
                    explanation = (if expl = [] then ''Non-breaking change detected'' else expl),
                    timestamp = now\<rparr>
              else \<lparr>projectId = projectId', changedFile = filePath', changedRepo = repoId',
                    affectedFiles = unique,
                    diff = bothContents oldContent newContent,
                    isBreaking = breaking,
                    severity = determineSeverity (length unique) breaking,
                    explanation = expl, timestamp = now\<rparr>))"

definition analyzeFileChange ::
  "disk \<Rightarrow> repo_files \<Rightarrow> classifier \<Rightarrow> string \<Rightarrow> string \<Rightarrow> string \<Rightarrow> string
     \<Rightarrow> string option \<Rightarrow> string option \<Rightarrow> error + ImpactResult" where
  "analyzeFileChange d readRepoFile generateContent now projectId' repoId' filePath'
       oldContent newContent =
     (case GraphService_new d (Some projectId') of
        Inl e \<Rightarrow> Inl e
      | Inr graphService \<Rightarrow>
          Inr (analyzeGraph readRepoFile generateContent now (getGraph graphService)
                 projectId' repoId' filePath' oldContent newContent))"

section \<open>Notions used in the statements\<close>

text \<open>
  The severity table as the specification writes it: rows of a guard over
  \<open>(isBreaking, affectedCount)\<close> and a severity, read from the top; the first row whose
  guard holds gives the result.
\<close>

definition severityTable :: "((bool \<Rightarrow> nat \<Rightarrow> bool) \<times> Severity) list" where
  "severityTable =
     [(\<lambda>breaking affectedCount. breaking \<and> affectedCount > 5, CRITICAL),
      (\<lambda>breaking affectedCount. breaking \<and> affectedCount > 0, HIGH),
      (\<lambda>breaking affectedCount. affectedCount > 10, HIGH),
      (\<lambda>breaking affectedCount. affectedCount > 5, MEDIUM),
      (\<lambda>breaking affectedCount. True, LOW)]"

fun firstMatch :: "((bool \<Rightarrow> nat \<Rightarrow> bool) \<times> Severity) list \<Rightarrow> bool \<Rightarrow> nat \<Rightarrow> Severity option" where
  "firstMatch [] breaking affectedCount = None"
| "firstMatch (row # rows) breaking affectedCount =
     (if fst row breaking affectedCount then Some (snd row)
      else firstMatch rows breaking affectedCount)"

text \<open>
  The classifier's verdict as the analyzer reads it: breaking only when both contents
  were supplied, the call was made and its answer was parsed with a true \<open>isBreaking\<close>.
\<close>

definition classifierBreaking :: "classifier \<Rightarrow> string option \<Rightarrow> string option \<Rightarrow> bool" where
  "classifierBreaking generateContent oldContent newContent =
     (case bothContents oldContent newContent of
        None \<Rightarrow> False
      | Some (old, new) \<Rightarrow>
          (case generateContent (take 2000 old) (take 2000 new) of
             AIResult breaking expl changedFunctions \<Rightarrow> breaking
           | _ \<Rightarrow> False))"

text \<open>The hit that the walker pushes for a newly found node \<open>n\<close>.\<close>

definition importHit :: "string \<Rightarrow> string \<Rightarrow> AffectedFile" where
  "importHit changedNodeId n =
     \<lparr>repoId = idRepoId n, filePath = idFilePath n,
      reason = ''Imports '' @ basename changedNodeId, context_hit = None\<rparr>"

text \<open>
  The reverse IMPORTS relation of a graph: \<open>(t, s)\<close> when some IMPORTS edge has target
  \<open>t\<close> and source \<open>s\<close>, so that \<open>s\<close> depends on \<open>t\<close>. What can be reached from the
  changed node \<open>c\<close> is \<open>(importers graph)\<^sup>* `` {c}\<close>.
\<close>

definition importers :: "GraphData \<Rightarrow> (string \<times> string) set" where
  "importers graph =
     set (map (\<lambda>e. (target e, source e)) (filter (\<lambda>e. type_edge e = IMPORTS) (edges graph)))"

text \<open>The sources that a run over the edges \<open>es\<close> adds to the visited set \<open>V\<close>, in order.\<close>

fun newSources :: "GraphEdge list \<Rightarrow> string set \<Rightarrow> string list" where
  "newSources [] V = []"
| "newSources (e # es) V =
     (if source e \<in> V then newSources es V else source e # newSources es (insert (source e) V))"

text \<open>The nodes that one turn of the loop, taking \<open>cur\<close> from the queue, finds new.\<close>

definition discovered :: "GraphData \<Rightarrow> string \<Rightarrow> walk_state \<Rightarrow> string list" where
  "discovered graph cur st = newSources (dependentEdges graph cur) (visited st)"

text \<open>The files that a call of \<open>searchForAffectedFiles\<close> looks up and searches.\<close>

definition scanned :: "GraphData \<Rightarrow> string \<Rightarrow> string list \<Rightarrow> GraphNode list" where
  "scanned graph sourceRepoId changedFunctions =
     (if functionListOf changedFunctions = [] then []
      else scannedFiles (take limit (otherRepoFiles graph sourceRepoId)) {})"

section \<open>Example inputs\<close>

text \<open>
  A small project: repository \<open>A\<close> holds \<open>src/api.ts\<close>, repository \<open>B\<close> holds
  \<open>src/client.ts\<close>, which imports it and calls \<open>getUser\<close> on its second line.
\<close>

definition exampleGraph :: GraphData where
  "exampleGraph =
     \<lparr>nodes = [\<lparr>id_node = ''A:src/api.ts'', type_node = FILE, label = ''api.ts'', metadata = None\<rparr>,
               \<lparr>id_node = ''B:src/client.ts'', type_node = FILE, label = ''client.ts'', metadata = None\<rparr>],
      edges = [\<lparr>source = ''B:src/client.ts'', target = ''A:src/api.ts'', type_edge = IMPORTS,
                metadata_edge = None\<rparr>]\<rparr>"

definition exampleFiles :: repo_files where
  "exampleFiles = (\<lambda>r p.
     if r = ''B'' \<and> p = ''src/client.ts''
     then Some (''import { getUser } from api'' @ [CHR 0x0A] @ ''getUser(1)'')
     else None)"

text \<open>
  The same project, stored by an indexer that writes the path of the file of \<open>A\<close> with
  a back-slash.
\<close>

definition exampleGraphBackslash :: GraphData where
  "exampleGraphBackslash =
     \<lparr>nodes = [\<lparr>id_node = ''A:src'' @ [CHR 0x5C] @ ''api.ts'', type_node = FILE, label = ''api.ts'',
                metadata = None\<rparr>,
               \<lparr>id_node = ''B:src/client.ts'', type_node = FILE, label = ''client.ts'', metadata = None\<rparr>],
      edges = [\<lparr>source = ''B:src/client.ts'', target = ''A:src'' @ [CHR 0x5C] @ ''api.ts'',
                type_edge = IMPORTS, metadata_edge = None\<rparr>]\<rparr>"

text \<open>A cycle through the changed node: \<open>B:b.ts\<close> imports \<open>A:a.ts\<close>, which imports it back.\<close>

definition exampleCycle :: GraphData where
  "exampleCycle =
     \<lparr>nodes = [],
      edges = [\<lparr>source = ''B:b.ts'', target = ''A:a.ts'', type_edge = IMPORTS, metadata_edge = None\<rparr>,
               \<lparr>source = ''A:a.ts'', target = ''B:b.ts'', type_edge = IMPORTS, metadata_edge = None\<rparr>]\<rparr>"

text \<open>
  \<open>B:c.ts\<close> imports \<open>A:b.ts\<close>, which imports the changed \<open>A:a.ts\<close>: the only way from
  the changed file to repository \<open>B\<close> goes through a file of repository \<open>A\<close>.
\<close>

definition exampleChain :: GraphData where
  "exampleChain =
     \<lparr>nodes = [],
      edges = [\<lparr>source = ''A:b.ts'', target = ''A:a.ts'', type_edge = IMPORTS, metadata_edge = None\<rparr>,
               \<lparr>source = ''B:c.ts'', target = ''A:b.ts'', type_edge = IMPORTS, metadata_edge = None\<rparr>]\<rparr>"

text \<open>
  Two files of repository \<open>B\<close> whose names differ in case only; \<open>getUser\<close> is used in
  the second.
\<close>

definition exampleVariants :: GraphData where
  "exampleVariants =
     \<lparr>nodes = [\<lparr>id_node = ''B:src/Util.ts'', type_node = FILE, label = ''Util.ts'', metadata = None\<rparr>,
               \<lparr>id_node = ''B:src/util.ts'', type_node = FILE, label = ''util.ts'', metadata = None\<rparr>],
      edges = []\<rparr>"

definition exampleVariantFiles :: repo_files where
  "exampleVariantFiles = (\<lambda>r p.
     if r = ''B'' \<and> p = ''src/Util.ts'' then Some ''export const x = 1''
     else if r = ''B'' \<and> p = ''src/util.ts'' then Some ''getUser(1)''
     else None)"

section \<open>Properties of the Map\<close>

text \<open>
  What \<open>new Map(entries)\<close> holds: the keys in the order of their first occurrence, each
  with the value of its last occurrence.
\<close>

lemma Map_set_keys:
  "map fst (Map_set k v m) = (if k \<in> set (map fst m) then map fst m else map fst m @ [k])"
  by (induction m) auto

lemma Map_set_map_of: "map_of (Map_set k v m) = (map_of m)(k \<mapsto> v)"
  by (induction m) (auto simp: fun_eq_iff)

lemma Map_set_entries: "set (Map_set k v m) \<subseteq> insert (k, v) (set m)"
  by (induction m) auto

lemma Map_new_snoc: "Map_new (es @ [e]) = Map_set (fst e) (snd e) (Map_new es)"
  by (simp add: Map_new_def)

lemma Map_new_keys: "map fst (Map_new es) = rev (remdups (rev (map fst es)))"
proof (induction es rule: rev_induct)
  case Nil
  then show ?case by (simp add: Map_new_def)
next
  case (snoc e es)
  then show ?case by (simp add: Map_new_snoc Map_set_keys)
qed

lemma Map_new_map_of: "map_of (Map_new es) = map_of (rev es)"
proof (induction es rule: rev_induct)
  case Nil
  then show ?case by (simp add: Map_new_def)
next
  case (snoc e es)
  then show ?case by (simp add: Map_new_snoc Map_set_map_of)
qed

lemma Map_new_entries: "set (Map_new es) \<subseteq> set es"
proof (induction es rule: rev_induct)
  case Nil
  then show ?case by (simp add: Map_new_def)
next
  case (snoc e es)
  then show ?case using Map_set_entries [of "fst e" "snd e" "Map_new es"]
    by (auto simp: Map_new_snoc)
qed

lemma Map_set_fresh: "k \<notin> set (map fst m) \<Longrightarrow> Map_set k v m = m @ [(k, v)]"
  by (induction m) auto

lemma Map_new_distinct: "distinct (map fst es) \<Longrightarrow> Map_new es = es"
proof (induction es rule: rev_induct)
  case Nil
  then show ?case by (simp add: Map_new_def)
next
  case (snoc e es)
  then show ?case by (simp add: Map_new_snoc Map_set_fresh)
qed

lemma load_roundtrip:
  "distinct (map id_node ns) \<Longrightarrow> Map_values (Map_new (map (\<lambda>n. (id_node n, n)) ns)) = ns"
  by (simp add: Map_new_distinct comp_def Map_values_def)

section \<open>Properties of GraphService\<close>

text \<open>
  C10. When the id of \<open>n\<close> is already a key of the node map, \<open>addNode n\<close> changes
  neither the service (nodes and edges) nor the disk: the stored node is kept as it is.
\<close>

theorem addNode_existing_unchanged:
  "Map_has (id_node n) (this_nodes this) \<Longrightarrow> addNode n (this, d) = (this, d)"
  by (simp add: addNode_def)

theorem addNode_existing_unchanged_witness:
  "addNode \<lparr>id_node = ''A:src/api.ts'', type_node = FUNCTION, label = ''other'', metadata = Some []\<rparr>
     (\<lparr>this_nodes = [(''A:src/api.ts'',
          \<lparr>id_node = ''A:src/api.ts'', type_node = FILE, label = ''api.ts'', metadata = None\<rparr>)],
        this_edges = [], graphFile = ''data/graph-p.json''\<rparr>, (\<lambda>_. Missing))
   = (\<lparr>this_nodes = [(''A:src/api.ts'',
          \<lparr>id_node = ''A:src/api.ts'', type_node = FILE, label = ''api.ts'', metadata = None\<rparr>)],
        this_edges = [], graphFile = ''data/graph-p.json''\<rparr>, (\<lambda>_. Missing))"
  by (rule addNode_existing_unchanged) (simp add: Map_has_def)

text \<open>
  C4, as stated, fails: a persisted document that \<open>JSON.parse\<close> rejects makes the
  constructor raise.
\<close>

theorem GraphService_new_corrupt_counterexample:
  "GraphService_new (\<lambda>_. Unparsable) (Some ''p1'') = Inl SyntaxError"
  by (simp add: GraphService_new_def load_def)

text \<open>
  C4, amended. A missing persisted document never makes the constructor fail and gives
  the empty graph; a graph document whose node ids are distinct is loaded as it is. A
  corrupt document (unparsable, or parsed to a value without a \<open>nodes\<close> array) is
  not treated as the empty graph: the constructor raises.
\<close>

theorem GraphService_new_outcomes:
  "(d (graphFileOf pid) = Missing \<longrightarrow>
      (\<exists>this. GraphService_new d pid = Inr this \<and> getGraph this = \<lparr>nodes = [], edges = []\<rparr>)) \<and>
   (d (graphFileOf pid) = Document dat \<and> distinct (map id_node (nodes dat)) \<longrightarrow>
      (\<exists>this. GraphService_new d pid = Inr this \<and> getGraph this = dat)) \<and>
   (d (graphFileOf pid) = Unparsable \<longrightarrow> GraphService_new d pid = Inl SyntaxError) \<and>
   (d (graphFileOf pid) = NoNodesArray \<longrightarrow> GraphService_new d pid = Inl TypeError)"
proof -
  have "Map_values ([]::(string, GraphNode) js_map) = []"
    by (simp add: Map_values_def)
  then show ?thesis
    by (auto simp: GraphService_new_def load_def getGraph_def load_roundtrip)
qed

theorem GraphService_new_outcomes_witness:
  "(\<exists>this. GraphService_new (\<lambda>_. Missing) (Some ''p1'') = Inr this
       \<and> getGraph this = \<lparr>nodes = [], edges = []\<rparr>) \<and>
   (\<exists>this. GraphService_new (\<lambda>_. Document exampleGraph) None = Inr this
       \<and> getGraph this = exampleGraph) \<and>
   GraphService_new (\<lambda>_. Unparsable) (Some ''p1'') = Inl SyntaxError \<and>
   GraphService_new (\<lambda>_. NoNodesArray) (Some ''p1'') = Inl TypeError"
proof -
  have "distinct (map id_node (nodes exampleGraph))"
    by (simp add: exampleGraph_def)
  then show ?thesis
    using GraphService_new_outcomes [of "\<lambda>_. Missing" "Some ''p1''"]
      GraphService_new_outcomes [of "\<lambda>_. Document exampleGraph" None exampleGraph]
      GraphService_new_outcomes [of "\<lambda>_. Unparsable" "Some ''p1''"]
      GraphService_new_outcomes [of "\<lambda>_. NoNodesArray" "Some ''p1''"]
    by simp
qed




section \<open>Properties of analyzeFileChange\<close>

text \<open>
  C6. \<open>determineSeverity\<close> is the severity table read from the top, the first matching
  row winning: breaking with more than 5 affected files is CRITICAL, breaking with more
  than 0 is HIGH, more than 10 is HIGH, more than 5 is MEDIUM, anything else LOW. In
  particular \<open>(true, 6)\<close> is CRITICAL, \<open>(true, 1)\<close> is HIGH and \<open>(true, 0)\<close> is LOW.
\<close>

theorem determineSeverity_table:
  "firstMatch severityTable breaking affectedCount = Some (determineSeverity affectedCount breaking) \<and>
   determineSeverity 6 True = CRITICAL \<and>
   determineSeverity 1 True = HIGH \<and>
   determineSeverity 0 True = LOW"
  by (simp add: severityTable_def determineSeverity_def)

theorem determineSeverity_table_witness:
  "firstMatch severityTable False 11 = Some HIGH \<and>
   firstMatch severityTable False 6 = Some MEDIUM \<and>
   firstMatch severityTable True 0 = Some LOW"
  using determineSeverity_table [of False 11] determineSeverity_table [of False 6]
    determineSeverity_table [of True 0]
  by (simp add: determineSeverity_def)

lemma aiAnalysis_breaking:
  "fst (snd (aiAnalysis readRepoFile generateContent graph r oldContent newContent))
     = classifierBreaking generateContent oldContent newContent"
  by (simp add: aiAnalysis_def classifierBreaking_def split: option.split ai_outcome.split prod.split)

lemma analyzeGraph_not_breaking:
  "\<not> isBreaking (analyzeGraph readRepoFile generateContent now graph p r f oldContent newContent)
   \<Longrightarrow> affectedFiles (analyzeGraph readRepoFile generateContent now graph p r f oldContent newContent) = []
     \<and> severity (analyzeGraph readRepoFile generateContent now graph p r f oldContent newContent) = LOW"
  by (auto simp: analyzeGraph_def createEmptyResult_def Let_def split: option.splits prod.splits if_splits)

lemma analyzeGraph_isBreaking:
  "isBreaking (analyzeGraph readRepoFile generateContent now graph p r f oldContent newContent)
   \<Longrightarrow> classifierBreaking generateContent oldContent newContent"
  using aiAnalysis_breaking [of readRepoFile generateContent graph r oldContent newContent]
  by (auto simp: analyzeGraph_def createEmptyResult_def Let_def split: option.splits prod.splits if_splits)

text \<open>
  C2. Whenever \<open>analyzeFileChange\<close> returns and the classifier's verdict is not breaking
  (also when no call was made because a content is absent), or the result's
  \<open>isBreaking\<close> is false, the result has no affected files and severity LOW, whatever
  the walker and the scanner found.
\<close>

theorem non_breaking_short_circuit:
  assumes "analyzeFileChange d readRepoFile generateContent now p r f oldContent newContent = Inr res"
    and "\<not> classifierBreaking generateContent oldContent newContent \<or> \<not> isBreaking res"
  shows "affectedFiles res = [] \<and> severity res = LOW \<and> \<not> isBreaking res"
proof -
  from assms(1) obtain graph where
    res: "res = analyzeGraph readRepoFile generateContent now graph p r f oldContent newContent"
    by (auto simp: analyzeFileChange_def split: sum.splits)
  from assms(2) have "\<not> isBreaking res"
    using analyzeGraph_isBreaking res by blast
  then show ?thesis
    using analyzeGraph_not_breaking res by blast
qed

theorem non_breaking_short_circuit_witness:
  "(\<exists>res. analyzeFileChange (\<lambda>_. Document exampleGraph) exampleFiles
            (\<lambda>_ _. AIResult False ''internal change'' [''getUser''])
            ''2026'' ''p1'' ''A'' ''src/api.ts'' (Some ''old'') (Some ''new'') = Inr res
          \<and> affectedFiles res = [] \<and> severity res = LOW) \<and>
   length (findAffectedFiles exampleGraph ''A:src/api.ts'' ''A'') = 1 \<and>
   length (searchForAffectedFiles exampleFiles exampleGraph ''A'' [''getUser'']) = 1"
proof -
  let ?ai = "\<lambda>(_::string) (_::string). AIResult False ''internal change'' [''getUser'']"
  obtain res where res: "analyzeFileChange (\<lambda>_. Document exampleGraph) exampleFiles ?ai
      ''2026'' ''p1'' ''A'' ''src/api.ts'' (Some ''old'') (Some ''new'') = Inr res"
    by (simp add: analyzeFileChange_def GraphService_new_def load_def)
  have "\<not> classifierBreaking ?ai (Some ''old'') (Some ''new'')"
    by (simp add: classifierBreaking_def bothContents_def)
  then have "affectedFiles res = [] \<and> severity res = LOW \<and> \<not> isBreaking res"
    using non_breaking_short_circuit [OF res] by blast
  moreover have "length (findAffectedFiles exampleGraph ''A:src/api.ts'' ''A'') = 1"
    by code_simp
  moreover have "length (searchForAffectedFiles exampleFiles exampleGraph ''A'' [''getUser'']) = 1"
    by code_simp
  ultimately show ?thesis using res by blast
qed

lemma findChangedNode_id:
  "map_option snd (findChangedNode graph ids) = find (\<lambda>i. i \<in> id_node ` set (nodes graph)) ids"
proof (induction ids)
  case Nil
  then show ?case by simp
next
  case (Cons i ids)
  show ?case
  proof (cases "find (\<lambda>n. id_node n = i) (nodes graph)")
    case None
    then have "i \<notin> id_node ` set (nodes graph)"
      by (auto simp: find_None_iff)
    with None Cons show ?thesis by simp
  next
    case (Some n)
    then have "i \<in> id_node ` set (nodes graph)"
      by (auto simp: find_Some_iff)
    with Some show ?thesis by simp
  qed
qed

lemma findChangedNode_node:
  "findChangedNode graph ids = Some (n, i) \<Longrightarrow> n \<in> set (nodes graph) \<and> id_node n = i"
  by (induction ids) (auto split: option.splits simp: find_Some_iff)

text \<open>
  C3. The node id that resolution settles on is the first of the three candidates, in
  the order forward-slash path, path as given, back-slash path (each after
  \<open><repoId>:\<close>), that is the id of a node of the graph, and the node found has that
  id. When the graph is loaded and no candidate is the id of a node,
  \<open>analyzeFileChange\<close> returns (it does not raise) the empty result: no affected
  files, not breaking, severity LOW, explanation "File not found in dependency graph".
  When some candidate is the id of a node, \<open>analyzeFileChange\<close> goes on with the first
  such candidate \<open>i\<close>: the walk starts at \<open>i\<close>, and the result is the one of the
  analysis (the breaking result over the hits of the walk from \<open>i\<close> and of the scan, or
  the non-breaking result), not the empty result.
\<close>

theorem node_resolution:
  "map_option snd (findChangedNode graph (possibleNodeIds r f))
     = find (\<lambda>i. i \<in> id_node ` set (nodes graph))
         [r @ '':'' @ replaceAll (CHR 0x5C) (CHR ''/'') f,
          r @ '':'' @ f,
          r @ '':'' @ replaceAll (CHR ''/'') (CHR 0x5C) f] \<and>
   (\<forall>n i. findChangedNode graph (possibleNodeIds r f) = Some (n, i)
      \<longrightarrow> n \<in> set (nodes graph) \<and> id_node n = i) \<and>
   (GraphService_new d (Some p) = Inr graphService \<and>
    (\<forall>i \<in> set (possibleNodeIds r f). i \<notin> id_node ` set (nodes (getGraph graphService)))
    \<longrightarrow> analyzeFileChange d readRepoFile generateContent now p r f oldContent newContent
        = Inr \<lparr>projectId = p, changedFile = f, changedRepo = r, affectedFiles = [],
               diff = None, isBreaking = False, severity = LOW,
               explanation = ''File not found in dependency graph'', timestamp = now\<rparr>) \<and>
   (GraphService_new d (Some p) = Inr graphService \<and>
    find (\<lambda>i. i \<in> id_node ` set (nodes (getGraph graphService)))
         [r @ '':'' @ replaceAll (CHR 0x5C) (CHR ''/'') f,
          r @ '':'' @ f,
          r @ '':'' @ replaceAll (CHR ''/'') (CHR 0x5C) f] = Some found \<and>
    aiAnalysis readRepoFile generateContent (getGraph graphService) r oldContent newContent
      = (sem, breaking, expl)
    \<longrightarrow> analyzeFileChange d readRepoFile generateContent now p r f oldContent newContent
        = Inr (if breaking
               then \<lparr>projectId = p, changedFile = f, changedRepo = r,
                     affectedFiles =
                       uniqueAffectedFiles (findAffectedFiles (getGraph graphService) found r @ sem),
                     diff = bothContents oldContent newContent, isBreaking = True,
                     severity = determineSeverity
                       (length (uniqueAffectedFiles
                          (findAffectedFiles (getGraph graphService) found r @ sem))) True,
                     explanation = expl, timestamp = now\<rparr>
               else \<lparr>projectId = p, changedFile = f, changedRepo = r, affectedFiles = [],
                     diff = None, isBreaking = False, severity = LOW,
                     explanation = (if expl = [] then ''Non-breaking change detected'' else expl),
                     timestamp = now\<rparr>))"
proof (intro conjI allI impI)
  show "map_option snd (findChangedNode graph (possibleNodeIds r f))
     = find (\<lambda>i. i \<in> id_node ` set (nodes graph))
         [r @ '':'' @ replaceAll (CHR 0x5C) (CHR ''/'') f,
          r @ '':'' @ f,
          r @ '':'' @ replaceAll (CHR ''/'') (CHR 0x5C) f]"
    using findChangedNode_id [of graph "possibleNodeIds r f"]
    by (simp only: possibleNodeIds_def)
next
  fix n i
  assume "findChangedNode graph (possibleNodeIds r f) = Some (n, i)"
  then show "n \<in> set (nodes graph)" "id_node n = i"
    using findChangedNode_node by blast+
next
  assume a: "GraphService_new d (Some p) = Inr graphService \<and>
    (\<forall>i \<in> set (possibleNodeIds r f). i \<notin> id_node ` set (nodes (getGraph graphService)))"
  then have "find (\<lambda>i. i \<in> id_node ` set (nodes (getGraph graphService))) (possibleNodeIds r f) = None"
    by (simp add: find_None_iff)
  then have "findChangedNode (getGraph graphService) (possibleNodeIds r f) = None"
    using findChangedNode_id [of "getGraph graphService" "possibleNodeIds r f"] by simp
  with a show "analyzeFileChange d readRepoFile generateContent now p r f oldContent newContent
        = Inr \<lparr>projectId = p, changedFile = f, changedRepo = r, affectedFiles = [],
               diff = None, isBreaking = False, severity = LOW,
               explanation = ''File not found in dependency graph'', timestamp = now\<rparr>"
    by (simp add: analyzeFileChange_def analyzeGraph_def createEmptyResult_def)
next
  let ?g = "getGraph graphService"
  assume a: "GraphService_new d (Some p) = Inr graphService \<and>
    find (\<lambda>i. i \<in> id_node ` set (nodes ?g))
         [r @ '':'' @ replaceAll (CHR 0x5C) (CHR ''/'') f,
          r @ '':'' @ f,
          r @ '':'' @ replaceAll (CHR ''/'') (CHR 0x5C) f] = Some found \<and>
    aiAnalysis readRepoFile generateContent ?g r oldContent newContent = (sem, breaking, expl)"
  then have "find (\<lambda>i. i \<in> id_node ` set (nodes ?g)) (possibleNodeIds r f) = Some found"
    by (simp only: possibleNodeIds_def)
  then have "map_option snd (findChangedNode ?g (possibleNodeIds r f)) = Some found"
    using findChangedNode_id [of ?g "possibleNodeIds r f"] by simp
  then obtain n where n: "findChangedNode ?g (possibleNodeIds r f) = Some (n, found)"
    by auto
  from a have gs: "GraphService_new d (Some p) = Inr graphService"
    and ai: "aiAnalysis readRepoFile generateContent ?g r oldContent newContent = (sem, breaking, expl)"
    by simp_all
  show "analyzeFileChange d readRepoFile generateContent now p r f oldContent newContent
        = Inr (if breaking
               then \<lparr>projectId = p, changedFile = f, changedRepo = r,
                     affectedFiles = uniqueAffectedFiles (findAffectedFiles ?g found r @ sem),
                     diff = bothContents oldContent newContent, isBreaking = True,
                     severity = determineSeverity
                       (length (uniqueAffectedFiles (findAffectedFiles ?g found r @ sem))) True,
                     explanation = expl, timestamp = now\<rparr>
               else \<lparr>projectId = p, changedFile = f, changedRepo = r, affectedFiles = [],
                     diff = None, isBreaking = False, severity = LOW,
                     explanation = (if expl = [] then ''Non-breaking change detected'' else expl),
                     timestamp = now\<rparr>)"
    by (simp add: analyzeFileChange_def analyzeGraph_def gs n ai Let_def)
qed

theorem node_resolution_witness:
  "map_option snd (findChangedNode exampleGraphBackslash (possibleNodeIds ''A'' ''src/api.ts''))
     = Some (''A:src'' @ [CHR 0x5C] @ ''api.ts'') \<and>
   analyzeFileChange (\<lambda>_. Document exampleGraph) exampleFiles (\<lambda>_ _. AIFailed)
       ''2026'' ''p1'' ''A'' ''src/missing.ts'' None None
     = Inr \<lparr>projectId = ''p1'', changedFile = ''src/missing.ts'', changedRepo = ''A'',
            affectedFiles = [], diff = None, isBreaking = False, severity = LOW,
            explanation = ''File not found in dependency graph'', timestamp = ''2026''\<rparr> \<and>
   analyzeFileChange (\<lambda>_. Document exampleGraphBackslash) exampleFiles
       (\<lambda>_ _. AIResult True ''renamed'' [])
       ''2026'' ''p1'' ''A'' ''src/api.ts'' (Some ''old'') (Some ''new'')
     = Inr \<lparr>projectId = ''p1'', changedFile = ''src/api.ts'', changedRepo = ''A'',
            affectedFiles =
              [\<lparr>repoId = ''B'', filePath = ''src/client.ts'',
                reason = ''Imports A:src'' @ [CHR 0x5C] @ ''api.ts'', context_hit = None\<rparr>],
            diff = Some (''old'', ''new''), isBreaking = True, severity = HIGH,
            explanation = ''renamed'', timestamp = ''2026''\<rparr>"
proof (intro conjI)
  have "find (\<lambda>i. i \<in> id_node ` set (nodes exampleGraphBackslash))
         [''A'' @ '':'' @ replaceAll (CHR 0x5C) (CHR ''/'') ''src/api.ts'',
          ''A'' @ '':'' @ ''src/api.ts'',
          ''A'' @ '':'' @ replaceAll (CHR ''/'') (CHR 0x5C) ''src/api.ts'']
        = Some (''A:src'' @ [CHR 0x5C] @ ''api.ts'')"
    by (simp add: exampleGraphBackslash_def replaceAll_def)
  then show "map_option snd (findChangedNode exampleGraphBackslash (possibleNodeIds ''A'' ''src/api.ts''))
     = Some (''A:src'' @ [CHR 0x5C] @ ''api.ts'')"
    using node_resolution [of exampleGraphBackslash "''A''" "''src/api.ts''"] by simp
next
  let ?d = "\<lambda>_::string. Document exampleGraph"
  obtain gs where gs: "GraphService_new ?d (Some ''p1'') = Inr gs"
    and g: "getGraph gs = exampleGraph"
    by (simp add: GraphService_new_def load_def getGraph_def Map_values_def Map_new_def
        exampleGraph_def)
  have "\<forall>i \<in> set (possibleNodeIds ''A'' ''src/missing.ts''). i \<notin> id_node ` set (nodes (getGraph gs))"
    by (simp add: g possibleNodeIds_def exampleGraph_def replaceAll_def)
  with gs show "analyzeFileChange ?d exampleFiles (\<lambda>_ _. AIFailed)
       ''2026'' ''p1'' ''A'' ''src/missing.ts'' None None
     = Inr \<lparr>projectId = ''p1'', changedFile = ''src/missing.ts'', changedRepo = ''A'',
            affectedFiles = [], diff = None, isBreaking = False, severity = LOW,
            explanation = ''File not found in dependency graph'', timestamp = ''2026''\<rparr>"
    using node_resolution [of exampleGraph "''A''" "''src/missing.ts''" ?d "''p1''" gs
        exampleFiles "\<lambda>_ _. AIFailed" "''2026''" None None]
    by blast
next
  let ?d = "\<lambda>_::string. Document exampleGraphBackslash"
  let ?ai = "\<lambda>(_::string) (_::string). AIResult True ''renamed'' []"
  let ?i = "''A:src'' @ [CHR 0x5C] @ ''api.ts''"
  let ?hit = "\<lparr>repoId = ''B'', filePath = ''src/client.ts'',
                reason = ''Imports A:src'' @ [CHR 0x5C] @ ''api.ts'', context_hit = None\<rparr>"
  obtain gs where gs: "GraphService_new ?d (Some ''p1'') = Inr gs"
    and g: "getGraph gs = exampleGraphBackslash"
    by (simp add: GraphService_new_def load_def getGraph_def Map_values_def Map_new_def
        exampleGraphBackslash_def)
  have found: "find (\<lambda>i. i \<in> id_node ` set (nodes (getGraph gs)))
         [''A'' @ '':'' @ replaceAll (CHR 0x5C) (CHR ''/'') ''src/api.ts'',
          ''A'' @ '':'' @ ''src/api.ts'',
          ''A'' @ '':'' @ replaceAll (CHR ''/'') (CHR 0x5C) ''src/api.ts'']
        = Some ?i"
    by (simp add: g exampleGraphBackslash_def replaceAll_def)
  have ai: "aiAnalysis exampleFiles ?ai (getGraph gs) ''A'' (Some ''old'') (Some ''new'')
      = ([], True, ''renamed'')"
    by (simp add: aiAnalysis_def bothContents_def)
  have walk: "findAffectedFiles exampleGraphBackslash ?i ''A'' = [?hit]"
    by code_simp
  have uniq: "uniqueAffectedFiles [?hit] = [?hit]"
    by code_simp
  have "analyzeFileChange ?d exampleFiles ?ai ''2026'' ''p1'' ''A'' ''src/api.ts''
       (Some ''old'') (Some ''new'')
     = Inr \<lparr>projectId = ''p1'', changedFile = ''src/api.ts'', changedRepo = ''A'',
            affectedFiles = uniqueAffectedFiles (findAffectedFiles (getGraph gs) ?i ''A'' @ []),
            diff = bothContents (Some ''old'') (Some ''new''), isBreaking = True,
            severity = determineSeverity
              (length (uniqueAffectedFiles (findAffectedFiles (getGraph gs) ?i ''A'' @ []))) True,
            explanation = ''renamed'', timestamp = ''2026''\<rparr>"
    using node_resolution [of exampleGraph "''A''" "''src/api.ts''" ?d "''p1''" gs
        exampleFiles ?ai "''2026''" "Some ''old''" "Some ''new''" ?i "[]" True "''renamed''"]
      gs found ai
    by simp
  then show "analyzeFileChange ?d exampleFiles ?ai ''2026'' ''p1'' ''A'' ''src/api.ts''
       (Some ''old'') (Some ''new'')
     = Inr \<lparr>projectId = ''p1'', changedFile = ''src/api.ts'', changedRepo = ''A'',
            affectedFiles = [?hit],
            diff = Some (''old'', ''new''), isBreaking = True, severity = HIGH,
            explanation = ''renamed'', timestamp = ''2026''\<rparr>"
    by (simp add: g walk [simplified] uniq [simplified] bothContents_def determineSeverity_def)
qed

section \<open>Properties of findAffectedFiles\<close>

lemma newSources_set: "set (newSources es V) = source ` set es - V"
  by (induction es arbitrary: V) auto

lemma newSources_distinct: "distinct (newSources es V)"
  by (induction es arbitrary: V) (auto simp: newSources_set)

lemma visitEdge_fields:
  "queue (visitEdge c r e st) = queue st @ newSources [e] (visited st)"
  "visited (visitEdge c r e st) = visited st \<union> set (newSources [e] (visited st))"
  "affected (visitEdge c r e st)
     = affected st @ map (importHit c) (filter (\<lambda>n. idRepoId n \<noteq> r) (newSources [e] (visited st)))"
  by (simp_all add: visitEdge_def importHit_def)

lemma newSources_Cons:
  "newSources (e # es) V = newSources [e] V @ newSources es (V \<union> set (newSources [e] V))"
  by (simp add: insert_absorb)

lemma forEdges_fields:
  "queue (forEdges c r es st) = queue st @ newSources es (visited st) \<and>
   visited (forEdges c r es st) = visited st \<union> set (newSources es (visited st)) \<and>
   affected (forEdges c r es st)
     = affected st @ map (importHit c) (filter (\<lambda>n. idRepoId n \<noteq> r) (newSources es (visited st)))"
proof (induction es arbitrary: st)
  case Nil
  then show ?case by simp
next
  case (Cons e es)
  have step: "forEdges c r (e # es) st = forEdges c r es (visitEdge c r e st)"
    by simp
  show ?case
    unfolding step
    by (simp only: Cons.IH visitEdge_fields newSources_Cons [of e es] append_assoc
        set_append Un_assoc map_append filter_append)
qed

lemma drop1_append: "xs \<noteq> [] \<Longrightarrow> drop 1 (xs @ ys) = drop 1 xs @ ys"
  by (cases xs) simp_all

lemma whileBody_fields:
  "queue (whileBody graph c r cur rest st) = rest @ discovered graph cur st"
  "visited (whileBody graph c r cur rest st) = visited st \<union> set (discovered graph cur st)"
  "affected (whileBody graph c r cur rest st)
     = affected st @ map (importHit c) (filter (\<lambda>n. idRepoId n \<noteq> r) (discovered graph cur st))"
  by (simp_all add: whileBody_def discovered_def forEdges_fields)

lemma discovered_set:
  "set (discovered graph cur st) = importers graph `` {cur} - visited st"
  by (auto simp: discovered_def newSources_set dependentEdges_def importers_def)

lemma discovered_distinct: "distinct (discovered graph cur st)"
  by (simp add: discovered_def newSources_distinct)

lemma whileQueue_unfold:
  "queue st = cur # rest \<Longrightarrow>
   whileQueue graph c r st = whileQueue graph c r (whileBody graph c r cur rest st)"
  by (simp add: whileQueue.simps [of graph c r st])

lemma visitOrder_unfold:
  "queue st = cur # rest \<Longrightarrow>
   visitOrder graph c r st = cur # visitOrder graph c r (whileBody graph c r cur rest st)"
  by (simp add: visitOrder.simps [of graph c r st])

lemma whileQueue_empty: "queue st = [] \<Longrightarrow> whileQueue graph c r st = st"
  by (simp add: whileQueue.simps [of graph c r st])

lemma visitOrder_empty: "queue st = [] \<Longrightarrow> visitOrder graph c r st = []"
  by (simp add: visitOrder.simps [of graph c r st])

lemma queue_in_order: "set (queue st) \<subseteq> set (visitOrder graph c r st)"
proof (induction graph c r st rule: visitOrder.induct)
  case (1 graph c r st)
  show ?case
  proof (cases "queue st")
    case Nil
    then show ?thesis by simp
  next
    case (Cons cur rest)
    from "1.IH" [OF Cons]
    have "set rest \<subseteq> set (visitOrder graph c r (whileBody graph c r cur rest st))"
      by (simp add: whileBody_fields)
    then show ?thesis
      using Cons by (auto simp: visitOrder_unfold [OF Cons])
  qed
qed

lemma order_reachable:
  "set (visitOrder graph c r st) \<subseteq> (importers graph)\<^sup>* `` set (queue st)"
proof (induction graph c r st rule: visitOrder.induct)
  case (1 graph c r st)
  show ?case
  proof (cases "queue st")
    case Nil
    then show ?thesis by (simp add: visitOrder_empty)
  next
    case (Cons cur rest)
    let ?st' = "whileBody graph c r cur rest st"
    have "(importers graph)\<^sup>* `` set (queue ?st') \<subseteq> (importers graph)\<^sup>* `` set (queue st)"
    proof
      fix x
      assume "x \<in> (importers graph)\<^sup>* `` set (queue ?st')"
      then obtain q where q: "q \<in> set rest \<union> set (discovered graph cur st)"
        and qx: "(q, x) \<in> (importers graph)\<^sup>*"
        by (auto simp: whileBody_fields)
      show "x \<in> (importers graph)\<^sup>* `` set (queue st)"
      proof (cases "q \<in> set rest")
        case True
        then show ?thesis using qx Cons by auto
      next
        case False
        with q have "(cur, q) \<in> importers graph"
          by (auto simp: discovered_set)
        then have "(cur, x) \<in> (importers graph)\<^sup>*"
          using qx by (rule converse_rtrancl_into_rtrancl)
        then show ?thesis using Cons by auto
      qed
    qed
    with "1.IH" [OF Cons] show ?thesis
      using Cons by (auto simp: visitOrder_unfold [OF Cons])
  qed
qed

text \<open>
  The invariant of the loop: with \<open>ds\<close> the nodes already taken from the queue, the
  visited set is \<open>ds\<close> and the queue, without repetition, and the hits are those of the
  cross-repository nodes among them, the first (the changed node) left out.
\<close>

lemma walk_invariant:
  assumes "visited st = set (ds @ queue st)"
    and "distinct (ds @ queue st)"
    and "affected st = map (importHit c) (filter (\<lambda>n. idRepoId n \<noteq> r) (drop 1 (ds @ queue st)))"
    and "ds @ queue st \<noteq> []"
  shows "queue (whileQueue graph c r st) = [] \<and>
         visited (whileQueue graph c r st) = set (ds @ visitOrder graph c r st) \<and>
         distinct (ds @ visitOrder graph c r st) \<and>
         affected (whileQueue graph c r st)
           = map (importHit c) (filter (\<lambda>n. idRepoId n \<noteq> r) (drop 1 (ds @ visitOrder graph c r st))) \<and>
         (\<forall>p \<in> set (visitOrder graph c r st). importers graph `` {p} \<subseteq> set (ds @ visitOrder graph c r st))"
  using assms
proof (induction graph c r st arbitrary: ds rule: whileQueue.induct)
  case (1 graph c r st)
  show ?case
  proof (cases "queue st")
    case Nil
    with "1.prems" show ?thesis
      by (simp add: whileQueue_empty visitOrder_empty)
  next
    case (Cons cur rest)
    let ?st' = "whileBody graph c r cur rest st"
    let ?new = "discovered graph cur st"
    have new: "set ?new = importers graph `` {cur} - set (ds @ cur # rest)"
      using discovered_set [of graph cur st] "1.prems"(1) Cons by simp
    have q': "ds @ queue st @ ?new = (ds @ [cur]) @ queue ?st'"
      by (simp add: whileBody_fields Cons)
    have v': "visited ?st' = set ((ds @ [cur]) @ queue ?st')"
      using "1.prems"(1) Cons by (auto simp: whileBody_fields)
    have d': "distinct ((ds @ [cur]) @ queue ?st')"
      using "1.prems"(2) Cons new discovered_distinct [of graph cur st]
      by (auto simp: whileBody_fields)
    have "drop 1 (ds @ queue st @ ?new) = drop 1 (ds @ queue st) @ ?new"
      using "1.prems"(4) drop1_append [of "ds @ queue st" ?new] by simp
    then have a': "affected ?st' = map (importHit c) (filter (\<lambda>n. idRepoId n \<noteq> r)
          (drop 1 ((ds @ [cur]) @ queue ?st')))"
      using "1.prems"(3) q' by (simp add: whileBody_fields(3))
    have n': "(ds @ [cur]) @ queue ?st' \<noteq> []" by simp
    note IH = "1.IH" [OF Cons v' d' a' n']
    have ord: "ds @ visitOrder graph c r st = (ds @ [cur]) @ visitOrder graph c r ?st'"
      by (simp add: visitOrder_unfold [OF Cons])
    have "importers graph `` {cur} \<subseteq> set ((ds @ [cur]) @ visitOrder graph c r ?st')"
    proof
      fix x
      assume x: "x \<in> importers graph `` {cur}"
      show "x \<in> set ((ds @ [cur]) @ visitOrder graph c r ?st')"
      proof (cases "x \<in> set (ds @ cur # rest)")
        case True
        moreover have "set rest \<subseteq> set (visitOrder graph c r ?st')"
          using queue_in_order [of ?st' graph c r] by (simp add: whileBody_fields)
        ultimately show ?thesis by auto
      next
        case False
        with x new have "x \<in> set ?new" by simp
        then have "x \<in> set (queue ?st')" by (simp add: whileBody_fields)
        then show ?thesis using queue_in_order [of ?st' graph c r] by auto
      qed
    qed
    with IH show ?thesis
      unfolding ord whileQueue_unfold [OF Cons]
      by (simp add: visitOrder_unfold [OF Cons])
  qed
qed

lemma walk_result:
  "queue (whileQueue graph c r (walkStart c)) = [] \<and>
   visited (whileQueue graph c r (walkStart c)) = set (visitOrder graph c r (walkStart c)) \<and>
   distinct (visitOrder graph c r (walkStart c)) \<and>
   findAffectedFiles graph c r
     = map (importHit c) (filter (\<lambda>n. idRepoId n \<noteq> r) (tl (visitOrder graph c r (walkStart c)))) \<and>
   (\<forall>p \<in> set (visitOrder graph c r (walkStart c)).
      importers graph `` {p} \<subseteq> set (visitOrder graph c r (walkStart c)))"
  using walk_invariant [of "walkStart c" "[]" c r graph]
  by (simp add: walkStart_def findAffectedFiles_def drop_Suc)

lemma order_head: "visitOrder graph c r (walkStart c) = c # tl (visitOrder graph c r (walkStart c))"
  using visitOrder_unfold [of "walkStart c" c "[]" graph c r] by (simp add: walkStart_def)

lemma order_set: "set (visitOrder graph c r (walkStart c)) = (importers graph)\<^sup>* `` {c}"
proof
  show "set (visitOrder graph c r (walkStart c)) \<subseteq> (importers graph)\<^sup>* `` {c}"
    using order_reachable [of graph c r "walkStart c"] by (simp add: walkStart_def)
next
  have c: "c \<in> set (visitOrder graph c r (walkStart c))"
    using queue_in_order [of "walkStart c" graph c r] by (simp add: walkStart_def)
  have closed: "\<And>p x. p \<in> set (visitOrder graph c r (walkStart c)) \<Longrightarrow> (p, x) \<in> importers graph
      \<Longrightarrow> x \<in> set (visitOrder graph c r (walkStart c))"
    using walk_result [of graph c r] by blast
  show "(importers graph)\<^sup>* `` {c} \<subseteq> set (visitOrder graph c r (walkStart c))"
  proof
    fix x
    assume "x \<in> (importers graph)\<^sup>* `` {c}"
    then have "(c, x) \<in> (importers graph)\<^sup>*" by simp
    then show "x \<in> set (visitOrder graph c r (walkStart c))"
      by (induction rule: rtrancl_induct) (auto intro: c closed)
  qed
qed

lemma reachable_bound: "(importers graph)\<^sup>* `` {c} \<subseteq> insert c (source ` set (edges graph))"
proof
  fix x
  assume "x \<in> (importers graph)\<^sup>* `` {c}"
  then have "(c, x) \<in> (importers graph)\<^sup>*" by simp
  then show "x \<in> insert c (source ` set (edges graph))"
    by (induction rule: rtrancl_induct) (auto simp: importers_def)
qed

lemma order_length: "length (visitOrder graph c r (walkStart c)) \<le> Suc (length (edges graph))"
proof -
  have "length (visitOrder graph c r (walkStart c)) = card (set (visitOrder graph c r (walkStart c)))"
    using walk_result [of graph c r] by (simp add: distinct_card)
  also have "\<dots> \<le> card (insert c (source ` set (edges graph)))"
    using reachable_bound [of graph c] by (simp add: order_set card_mono)
  also have "\<dots> \<le> Suc (card (source ` set (edges graph)))"
    by (simp add: card_insert_if)
  also have "\<dots> \<le> Suc (length (edges graph))"
    using card_image_le [of "set (edges graph)" source] card_length [of "edges graph"] by simp
  finally show ?thesis .
qed

text \<open>
  C7. On every graph (its edge list is finite; cycles allowed) the walk ends, after at
  most one turn per edge and one for the start, with an empty queue. The nodes it takes
  from the queue are, without repetition, exactly the nodes reachable from the changed
  node along reverse IMPORTS edges: each is queued and visited once. The changed node
  comes first and never again, so no hit is pushed for it: the hits are those of the
  cross-repository nodes among the rest.
\<close>

theorem walk_visits_reachable_once:
  "distinct (visitOrder graph c r (walkStart c)) \<and>
   set (visitOrder graph c r (walkStart c)) = (importers graph)\<^sup>* `` {c} \<and>
   visitOrder graph c r (walkStart c) = c # tl (visitOrder graph c r (walkStart c)) \<and>
   c \<notin> set (tl (visitOrder graph c r (walkStart c))) \<and>
   length (visitOrder graph c r (walkStart c)) \<le> Suc (length (edges graph)) \<and>
   queue (whileQueue graph c r (walkStart c)) = [] \<and>
   visited (whileQueue graph c r (walkStart c)) = set (visitOrder graph c r (walkStart c)) \<and>
   findAffectedFiles graph c r
     = map (importHit c) (filter (\<lambda>n. idRepoId n \<noteq> r) (tl (visitOrder graph c r (walkStart c))))"
proof -
  have d: "distinct (visitOrder graph c r (walkStart c))"
    using walk_result [of graph c r] by simp
  then have "distinct (c # tl (visitOrder graph c r (walkStart c)))"
    using order_head [of graph c r] by simp
  then have "c \<notin> set (tl (visitOrder graph c r (walkStart c)))"
    by simp
  then show ?thesis
    using d walk_result [of graph c r] order_set [of graph c r] order_head [of graph c r]
      order_length [of graph c r]
    by blast
qed

theorem walk_visits_reachable_once_witness:
  "visitOrder exampleCycle ''A:a.ts'' ''A'' (walkStart ''A:a.ts'') = [''A:a.ts'', ''B:b.ts''] \<and>
   (importers exampleCycle)\<^sup>* `` {''A:a.ts''} = {''A:a.ts'', ''B:b.ts''} \<and>
   findAffectedFiles exampleCycle ''A:a.ts'' ''A'' = [importHit ''A:a.ts'' ''B:b.ts'']"
proof -
  have ord: "visitOrder exampleCycle ''A:a.ts'' ''A'' (walkStart ''A:a.ts'') = [''A:a.ts'', ''B:b.ts'']"
    by code_simp
  have "idRepoId ''B:b.ts'' \<noteq> ''A''"
    by (simp add: idRepoId_def)
  then show ?thesis
    using walk_visits_reachable_once [of exampleCycle "''A:a.ts''" "''A''"]
    by (simp add: ord insert_commute)
qed

text \<open>
  C8. No hit of the walker has the source repository as its \<open>repoId\<close>. Every hit is that
  of a node reachable from the changed node, and every reachable node of another
  repository, other than the start, is reported, whatever repositories the nodes on
  the way belong to.
\<close>

theorem cross_repo_filter:
  "(\<forall>h \<in> set (findAffectedFiles graph c r). repoId h \<noteq> r) \<and>
   (\<forall>h \<in> set (findAffectedFiles graph c r).
      \<exists>n. (c, n) \<in> (importers graph)\<^sup>* \<and> n \<noteq> c \<and> h = importHit c n) \<and>
   (\<forall>n. (c, n) \<in> (importers graph)\<^sup>* \<and> n \<noteq> c \<and> idRepoId n \<noteq> r
      \<longrightarrow> importHit c n \<in> set (findAffectedFiles graph c r))"
proof -
  let ?ord = "visitOrder graph c r (walkStart c)"
  have res: "findAffectedFiles graph c r = map (importHit c) (filter (\<lambda>n. idRepoId n \<noteq> r) (tl ?ord))"
    using walk_result [of graph c r] by simp
  have "distinct (c # tl ?ord)"
    using walk_result [of graph c r] order_head [of graph c r] by simp
  then have notc: "c \<notin> set (tl ?ord)" by simp
  have "set ?ord = insert c (set (tl ?ord))"
    using order_head [of graph c r] by (metis list.simps(15))
  then have tl: "set (tl ?ord) = (importers graph)\<^sup>* `` {c} - {c}"
    using notc order_set [of graph c r] by auto
  show ?thesis
    unfolding res by (auto simp: tl importHit_def)
qed

theorem cross_repo_filter_witness:
  "importHit ''A:a.ts'' ''B:c.ts'' \<in> set (findAffectedFiles exampleChain ''A:a.ts'' ''A'') \<and>
   findAffectedFiles exampleChain ''A:a.ts'' ''A''
     = [\<lparr>repoId = ''B'', filePath = ''c.ts'', reason = ''Imports A:a.ts'', context_hit = None\<rparr>] \<and>
   (''A:a.ts'', ''B:c.ts'') \<notin> importers exampleChain"
proof -
  have 1: "(''A:a.ts'', ''A:b.ts'') \<in> importers exampleChain"
    by (simp add: importers_def exampleChain_def)
  have 2: "(''A:b.ts'', ''B:c.ts'') \<in> importers exampleChain"
    by (simp add: importers_def exampleChain_def)
  have reach: "(''A:a.ts'', ''B:c.ts'') \<in> (importers exampleChain)\<^sup>*"
    using 1 2 by (meson rtrancl.rtrancl_into_rtrancl rtrancl.rtrancl_refl)
  have "idRepoId ''B:c.ts'' \<noteq> ''A''"
    by (simp add: idRepoId_def)
  then have "importHit ''A:a.ts'' ''B:c.ts'' \<in> set (findAffectedFiles exampleChain ''A:a.ts'' ''A'')"
    using cross_repo_filter [of exampleChain "''A:a.ts''" "''A''"] reach by simp
  moreover have "findAffectedFiles exampleChain ''A:a.ts'' ''A''
     = [\<lparr>repoId = ''B'', filePath = ''c.ts'', reason = ''Imports A:a.ts'', context_hit = None\<rparr>]"
    by code_simp
  moreover have "(''A:a.ts'', ''B:c.ts'') \<notin> importers exampleChain"
    by (simp add: importers_def exampleChain_def)
  ultimately show ?thesis by simp
qed

section \<open>Properties of the removal of duplicates\<close>

lemma map_of_keyed: "map_of (map (\<lambda>f. (key f, f)) xs) k = find (\<lambda>f. key f = k) xs"
  by (induction xs) auto

lemma uniqueAffectedFiles_keys:
  "map hitKey (uniqueAffectedFiles fs) = rev (remdups (rev (map hitKey fs)))"
proof -
  let ?m = "Map_new (map (\<lambda>f. (hitKey f, f)) fs)"
  have "\<forall>e \<in> set ?m. fst e = hitKey (snd e)"
    using Map_new_entries [of "map (\<lambda>f. (hitKey f, f)) fs"] by auto
  then have "map hitKey (map snd ?m) = map fst ?m"
    by simp
  then show ?thesis
    by (simp add: uniqueAffectedFiles_def Map_values_def Map_new_keys comp_def)
qed

lemma uniqueAffectedFiles_last:
  assumes "h \<in> set (uniqueAffectedFiles fs)"
  shows "find (\<lambda>f. hitKey f = hitKey h) (rev fs) = Some h"
proof -
  let ?es = "map (\<lambda>f. (hitKey f, f)) fs"
  let ?m = "Map_new ?es"
  from assms obtain k where km: "(k, h) \<in> set ?m"
    by (auto simp: uniqueAffectedFiles_def Map_values_def)
  then have "k = hitKey h"
    using Map_new_entries [of ?es] by auto
  moreover have "distinct (map fst ?m)"
    by (simp add: Map_new_keys)
  ultimately have "map_of ?m (hitKey h) = Some h"
    using km by simp
  then have "map_of (rev ?es) (hitKey h) = Some h"
    by (simp add: Map_new_map_of)
  then show ?thesis
    using map_of_keyed [of hitKey "rev fs" "hitKey h"] by (simp add: rev_map)
qed

lemma takeWhile_upto: "c \<notin> set a \<Longrightarrow> takeWhile (\<lambda>x. x \<noteq> c) (a @ c # x) = a"
  by (induction a) auto

lemma key_split:
  assumes "CHR '':'' \<notin> set a" "CHR '':'' \<notin> set b"
  shows "(a @ '':'' @ x = b @ '':'' @ y) = (a = b \<and> x = y)"
proof
  assume eq: "a @ '':'' @ x = b @ '':'' @ y"
  have "takeWhile (\<lambda>c. c \<noteq> CHR '':'') (a @ '':'' @ x) = a"
    using assms(1) by (simp add: takeWhile_upto)
  moreover have "takeWhile (\<lambda>c. c \<noteq> CHR '':'') (b @ '':'' @ y) = b"
    using assms(2) by (simp add: takeWhile_upto)
  ultimately have "a = b" using eq by simp
  with eq show "a = b \<and> x = y" by simp
next
  assume "a = b \<and> x = y"
  then show "a @ '':'' @ x = b @ '':'' @ y" by simp
qed

lemma idRepoId_no_colon: "CHR '':'' \<notin> set (idRepoId i)"
  by (auto simp: idRepoId_def dest: set_takeWhileD)

lemma forFunctions_repoId:
  "h \<in> set (forFunctions fileRepoId filePathStr fileContent fns added) \<Longrightarrow> repoId h = fileRepoId"
  by (induction fns arbitrary: added) (auto split: option.splits if_splits)

lemma scanFile_repoId:
  "h \<in> set (scanFile readRepoFile functionList file) \<Longrightarrow> repoId h = idRepoId (id_node file)"
  by (auto simp: scanFile_def Let_def split: option.splits dest: forFunctions_repoId)

lemma forFiles_repoId:
  "h \<in> set (forFiles readRepoFile functionList files processed) \<Longrightarrow> CHR '':'' \<notin> set (repoId h)"
  by (induction files arbitrary: processed)
    (auto split: if_splits dest!: scanFile_repoId simp: idRepoId_no_colon)

lemma searchForAffectedFiles_repoId:
  "h \<in> set (searchForAffectedFiles readRepoFile graph sourceRepoId changedFunctions)
   \<Longrightarrow> CHR '':'' \<notin> set (repoId h)"
  by (auto simp: searchForAffectedFiles_def Let_def split: if_splits dest: forFiles_repoId)

lemma aiAnalysis_repoId:
  "aiAnalysis readRepoFile generateContent graph r oldContent newContent = (sem, b, e)
   \<Longrightarrow> h \<in> set sem \<Longrightarrow> CHR '':'' \<notin> set (repoId h)"
  by (auto simp: aiAnalysis_def split: option.splits ai_outcome.splits if_splits
      dest: searchForAffectedFiles_repoId)

lemma visitEdge_repoId:
  "\<forall>h \<in> set (affected st). CHR '':'' \<notin> set (repoId h)
   \<Longrightarrow> \<forall>h \<in> set (affected (visitEdge c r e st)). CHR '':'' \<notin> set (repoId h)"
  by (auto simp: visitEdge_def idRepoId_no_colon)

lemma forEdges_repoId:
  "\<forall>h \<in> set (affected st). CHR '':'' \<notin> set (repoId h)
   \<Longrightarrow> \<forall>h \<in> set (affected (forEdges c r es st)). CHR '':'' \<notin> set (repoId h)"
proof (induction es arbitrary: st)
  case Nil
  then show ?case by simp
next
  case (Cons e es)
  from Cons.IH [OF visitEdge_repoId [OF Cons.prems]] show ?case by simp
qed

lemma whileQueue_repoId:
  "\<forall>h \<in> set (affected st). CHR '':'' \<notin> set (repoId h)
   \<Longrightarrow> \<forall>h \<in> set (affected (whileQueue graph c r st)). CHR '':'' \<notin> set (repoId h)"
proof (induction graph c r st rule: whileQueue.induct)
  case (1 graph c r st)
  show ?case
  proof (cases "queue st")
    case Nil
    with "1.prems" show ?thesis by (simp add: whileQueue.simps [of graph c r st])
  next
    case (Cons cur rest)
    have "\<forall>h \<in> set (affected (whileBody graph c r cur rest st)). CHR '':'' \<notin> set (repoId h)"
      unfolding whileBody_def using "1.prems" by (intro forEdges_repoId) simp
    from "1.IH" [OF Cons this] show ?thesis
      by (simp add: whileQueue.simps [of graph c r st] Cons)
  qed
qed

lemma findAffectedFiles_repoId:
  "h \<in> set (findAffectedFiles graph c r) \<Longrightarrow> CHR '':'' \<notin> set (repoId h)"
  using whileQueue_repoId [of "walkStart c" graph c r]
  by (simp add: findAffectedFiles_def walkStart_def)

lemma hitKey_eq:
  "CHR '':'' \<notin> set (repoId h1) \<Longrightarrow> CHR '':'' \<notin> set (repoId h2) \<Longrightarrow>
   (hitKey h1 = hitKey h2)
     = (repoId h1 = repoId h2 \<and> normalizedPath (filePath h1) = normalizedPath (filePath h2))"
  unfolding hitKey_def by (rule key_split)

text \<open>
  C1, amended. In \<open>analyzeFileChange\<close> on a breaking change to a file found in the
  graph (the only case in which hits are returned), the affected files are the
  merged sequence (structural hits, then semantic hits) with its duplicates removed by
  the key \<open><repoId>:<filePath, back-slashes turned to slashes, in lower case>\<close>. The
  keys kept are the distinct keys in the order of their first occurrence, and the hit
  kept for a key is its last occurrence in the merged sequence: earlier hits with the
  same key, also with another reason or context, are dropped. On the merged sequence
  two keys are equal exactly when the \<open>repoId\<close>s are equal and the normalized paths
  are equal.
\<close>

theorem dedup_last_occurrence_kept:
  assumes "findChangedNode graph (possibleNodeIds r f) = Some (n, i)"
    and "aiAnalysis readRepoFile generateContent graph r oldContent newContent = (sem, True, e)"
  shows "let allAffectedFiles = findAffectedFiles graph i r @ sem;
             kept = affectedFiles
               (analyzeGraph readRepoFile generateContent now graph p r f oldContent newContent)
         in kept = uniqueAffectedFiles allAffectedFiles \<and>
            map hitKey kept = rev (remdups (rev (map hitKey allAffectedFiles))) \<and>
            (\<forall>h \<in> set kept. find (\<lambda>g. hitKey g = hitKey h) (rev allAffectedFiles) = Some h) \<and>
            (\<forall>h1 \<in> set allAffectedFiles. \<forall>h2 \<in> set allAffectedFiles.
               (hitKey h1 = hitKey h2)
                 = (repoId h1 = repoId h2
                    \<and> normalizedPath (filePath h1) = normalizedPath (filePath h2)))"
proof -
  let ?all = "findAffectedFiles graph i r @ sem"
  have kept: "affectedFiles
      (analyzeGraph readRepoFile generateContent now graph p r f oldContent newContent)
      = uniqueAffectedFiles ?all"
    using assms by (simp add: analyzeGraph_def Let_def)
  have colon: "\<forall>h \<in> set ?all. CHR '':'' \<notin> set (repoId h)"
    using findAffectedFiles_repoId [of _ graph i r] aiAnalysis_repoId [OF assms(2)] by auto
  have keys: "\<forall>h1 \<in> set ?all. \<forall>h2 \<in> set ?all.
      (hitKey h1 = hitKey h2)
        = (repoId h1 = repoId h2 \<and> normalizedPath (filePath h1) = normalizedPath (filePath h2))"
    using colon hitKey_eq by blast
  have last: "\<forall>h \<in> set (uniqueAffectedFiles ?all).
      find (\<lambda>g. hitKey g = hitKey h) (rev ?all) = Some h"
    using uniqueAffectedFiles_last by blast
  show ?thesis
    unfolding Let_def kept using uniqueAffectedFiles_keys [of ?all] last keys by blast
qed

theorem dedup_last_occurrence_kept_witness:
  "affectedFiles (analyzeGraph exampleFiles (\<lambda>_ _. AIResult True ''renamed'' [''getUser''])
       ''2026'' exampleGraph ''p1'' ''A'' ''src/api.ts'' (Some ''old'') (Some ''new''))
     = uniqueAffectedFiles
         [\<lparr>repoId = ''B'', filePath = ''src/client.ts'', reason = ''Imports api.ts'',
           context_hit = None\<rparr>,
          \<lparr>repoId = ''B'', filePath = ''src/client.ts'',
           reason = ''Uses modified function: getUser'',
           context_hit = Some (''> 1: import { getUser } from api'' @ [CHR 0x0A] @ ''  2: getUser(1)'')\<rparr>]"
proof -
  let ?ai = "\<lambda>(_::string) (_::string). AIResult True ''renamed'' [''getUser'']"
  let ?h1 = "\<lparr>repoId = ''B'', filePath = ''src/client.ts'', reason = ''Imports api.ts'',
           context_hit = None\<rparr>"
  let ?h2 = "\<lparr>repoId = ''B'', filePath = ''src/client.ts'',
           reason = ''Uses modified function: getUser'',
           context_hit = Some (''> 1: import { getUser } from api'' @ [CHR 0x0A] @ ''  2: getUser(1)'')\<rparr>"
  have node: "findChangedNode exampleGraph (possibleNodeIds ''A'' ''src/api.ts'')
      = Some (\<lparr>id_node = ''A:src/api.ts'', type_node = FILE, label = ''api.ts'', metadata = None\<rparr>,
              ''A:src/api.ts'')"
    by code_simp
  have ai: "aiAnalysis exampleFiles ?ai exampleGraph ''A'' (Some ''old'') (Some ''new'')
      = ([?h2], True, ''renamed'')"
    by code_simp
  have walk: "findAffectedFiles exampleGraph ''A:src/api.ts'' ''A'' = [?h1]"
    by code_simp
  show ?thesis
    using dedup_last_occurrence_kept [OF node ai, of "''2026''" "''p1''"]
    by (simp add: Let_def walk)
qed

text \<open>
  C1, as stated, fails: \<open>B:src/client.ts\<close> is found by the walker and then by the
  scanner, under the same key, and the hit kept is the scanner's, the later one.
\<close>

theorem dedup_first_occurrence_counterexample:
  "findAffectedFiles exampleGraph ''A:src/api.ts'' ''A''
     = [\<lparr>repoId = ''B'', filePath = ''src/client.ts'', reason = ''Imports api.ts'',
          context_hit = None\<rparr>] \<and>
   searchForAffectedFiles exampleFiles exampleGraph ''A'' [''getUser'']
     = [\<lparr>repoId = ''B'', filePath = ''src/client.ts'',
          reason = ''Uses modified function: getUser'',
          context_hit = Some (''> 1: import { getUser } from api'' @ [CHR 0x0A] @ ''  2: getUser(1)'')\<rparr>] \<and>
   analyzeFileChange (\<lambda>_. Document exampleGraph) exampleFiles
       (\<lambda>_ _. AIResult True ''renamed'' [''getUser''])
       ''2026'' ''p1'' ''A'' ''src/api.ts'' (Some ''old'') (Some ''new'')
     = Inr \<lparr>projectId = ''p1'', changedFile = ''src/api.ts'', changedRepo = ''A'',
            affectedFiles =
              [\<lparr>repoId = ''B'', filePath = ''src/client.ts'',
                reason = ''Uses modified function: getUser'',
                context_hit = Some (''> 1: import { getUser } from api'' @ [CHR 0x0A] @ ''  2: getUser(1)'')\<rparr>],
            diff = Some (''old'', ''new''), isBreaking = True, severity = HIGH,
            explanation = ''renamed'', timestamp = ''2026''\<rparr>"
proof (intro conjI)
  show "findAffectedFiles exampleGraph ''A:src/api.ts'' ''A''
     = [\<lparr>repoId = ''B'', filePath = ''src/client.ts'', reason = ''Imports api.ts'',
          context_hit = None\<rparr>]"
    by code_simp
  show "searchForAffectedFiles exampleFiles exampleGraph ''A'' [''getUser'']
     = [\<lparr>repoId = ''B'', filePath = ''src/client.ts'',
          reason = ''Uses modified function: getUser'',
          context_hit = Some (''> 1: import { getUser } from api'' @ [CHR 0x0A] @ ''  2: getUser(1)'')\<rparr>]"
    by code_simp
  show "analyzeFileChange (\<lambda>_. Document exampleGraph) exampleFiles
       (\<lambda>_ _. AIResult True ''renamed'' [''getUser''])
       ''2026'' ''p1'' ''A'' ''src/api.ts'' (Some ''old'') (Some ''new'')
     = Inr \<lparr>projectId = ''p1'', changedFile = ''src/api.ts'', changedRepo = ''A'',
            affectedFiles =
              [\<lparr>repoId = ''B'', filePath = ''src/client.ts'',
                reason = ''Uses modified function: getUser'',
                context_hit = Some (''> 1: import { getUser } from api'' @ [CHR 0x0A] @ ''  2: getUser(1)'')\<rparr>],
            diff = Some (''old'', ''new''), isBreaking = True, severity = HIGH,
            explanation = ''renamed'', timestamp = ''2026''\<rparr>"
    by code_simp
qed

section \<open>Properties of searchForAffectedFiles\<close>

lemma forFiles_scannedFiles:
  "forFiles readRepoFile functionList files processed
     = concat (map (scanFile readRepoFile functionList) (scannedFiles files processed))"
  by (induction files arbitrary: processed) simp_all

lemma searchForAffectedFiles_scanned:
  "searchForAffectedFiles readRepoFile graph sourceRepoId changedFunctions
     = concat (map (scanFile readRepoFile (functionListOf changedFunctions))
         (scanned graph sourceRepoId changedFunctions))"
  by (simp add: searchForAffectedFiles_def scanned_def forFiles_scannedFiles Let_def)

lemma scannedFiles_iff:
  "x \<in> set (scannedFiles files processed)
     \<longleftrightarrow> normalizedId x \<notin> processed \<and> find (\<lambda>y. normalizedId y = normalizedId x) files = Some x"
  by (induction files arbitrary: processed) auto

lemma scannedFiles_subset: "set (scannedFiles files processed) \<subseteq> set files"
  by (induction files arbitrary: processed) auto

lemma startsWith_idRepoId: "startsWith i (idRepoId i)"
  unfolding startsWith_def idRepoId_def by (rule takeWhile_eq_take [symmetric])

lemma otherRepoFiles_member:
  "x \<in> set (otherRepoFiles graph sourceRepoId) \<Longrightarrow>
   x \<in> set (nodes graph) \<and> type_node x = FILE \<and> idRepoId (id_node x) \<noteq> sourceRepoId
     \<and> sourceExtension (id_node x)"
  using startsWith_idRepoId [of "id_node x"] by (auto simp: otherRepoFiles_def)

lemma otherRepoFiles_exact:
  assumes "\<forall>n \<in> set (nodes graph). startsWith (id_node n) sourceRepoId \<longrightarrow> idRepoId (id_node n) = sourceRepoId"
  shows "otherRepoFiles graph sourceRepoId
     = filter (\<lambda>n. type_node n = FILE \<and> idRepoId (id_node n) \<noteq> sourceRepoId
                   \<and> sourceExtension (id_node n)) (nodes graph)"
  unfolding otherRepoFiles_def
proof (rule filter_cong [OF refl])
  fix n
  assume "n \<in> set (nodes graph)"
  with assms startsWith_idRepoId [of "id_node n"]
  show "(type_node n = FILE \<and> \<not> startsWith (id_node n) sourceRepoId \<and> sourceExtension (id_node n))
      = (type_node n = FILE \<and> idRepoId (id_node n) \<noteq> sourceRepoId \<and> sourceExtension (id_node n))"
    by auto
qed

text \<open>
  C9, amended. Every file that the semantic scan looks up is a FILE node of the graph
  whose id has a source extension (\<open>.ts\<close>, \<open>.tsx\<close>, \<open>.js\<close>, \<open>.jsx\<close>) and whose
  repository is not the source repository, and the hits come from these files only.
  When some changed identifier has more than two characters after trimming, and no
  node of another repository has an id that starts with the source \<open>repoId\<close>, the
  candidates are the first 500 such nodes in the order of the graph, and a candidate
  is scanned exactly when no candidate before it has the same id after back-slashes are
  turned to slashes and letters to lower case.
\<close>

theorem scan_candidates:
  "(\<forall>x \<in> set (scanned graph sourceRepoId changedFunctions).
      x \<in> set (nodes graph) \<and> type_node x = FILE \<and> idRepoId (id_node x) \<noteq> sourceRepoId
        \<and> sourceExtension (id_node x)) \<and>
   searchForAffectedFiles readRepoFile graph sourceRepoId changedFunctions
     = concat (map (scanFile readRepoFile (functionListOf changedFunctions))
         (scanned graph sourceRepoId changedFunctions)) \<and>
   (functionListOf changedFunctions \<noteq> [] \<and>
    (\<forall>n \<in> set (nodes graph).
       startsWith (id_node n) sourceRepoId \<longrightarrow> idRepoId (id_node n) = sourceRepoId)
    \<longrightarrow> (\<forall>x. x \<in> set (scanned graph sourceRepoId changedFunctions)
          \<longleftrightarrow> find (\<lambda>y. normalizedId y = normalizedId x)
                (take 500 (filter (\<lambda>n. type_node n = FILE \<and> idRepoId (id_node n) \<noteq> sourceRepoId
                                       \<and> sourceExtension (id_node n)) (nodes graph)))
              = Some x))"
proof (intro conjI impI ballI allI)
  fix x
  assume "x \<in> set (scanned graph sourceRepoId changedFunctions)"
  then have "x \<in> set (take limit (otherRepoFiles graph sourceRepoId))"
    using scannedFiles_subset [of "take limit (otherRepoFiles graph sourceRepoId)" "{}"]
    by (auto simp: scanned_def split: if_splits)
  then have "x \<in> set (otherRepoFiles graph sourceRepoId)"
    by (rule in_set_takeD)
  then show "x \<in> set (nodes graph)" "type_node x = FILE"
    "idRepoId (id_node x) \<noteq> sourceRepoId" "sourceExtension (id_node x)"
    using otherRepoFiles_member by blast+
next
  show "searchForAffectedFiles readRepoFile graph sourceRepoId changedFunctions
     = concat (map (scanFile readRepoFile (functionListOf changedFunctions))
         (scanned graph sourceRepoId changedFunctions))"
    by (rule searchForAffectedFiles_scanned)
next
  fix x
  assume a: "functionListOf changedFunctions \<noteq> [] \<and>
    (\<forall>n \<in> set (nodes graph).
       startsWith (id_node n) sourceRepoId \<longrightarrow> idRepoId (id_node n) = sourceRepoId)"
  then have "otherRepoFiles graph sourceRepoId
     = filter (\<lambda>n. type_node n = FILE \<and> idRepoId (id_node n) \<noteq> sourceRepoId
                   \<and> sourceExtension (id_node n)) (nodes graph)"
    using otherRepoFiles_exact by blast
  with a show "x \<in> set (scanned graph sourceRepoId changedFunctions)
          \<longleftrightarrow> find (\<lambda>y. normalizedId y = normalizedId x)
                (take 500 (filter (\<lambda>n. type_node n = FILE \<and> idRepoId (id_node n) \<noteq> sourceRepoId
                                       \<and> sourceExtension (id_node n)) (nodes graph)))
              = Some x"
    by (simp add: scanned_def scannedFiles_iff limit_def)
qed

theorem scan_candidates_witness:
  "set (scanned exampleGraph ''A'' [''getUser''])
     = {\<lparr>id_node = ''B:src/client.ts'', type_node = FILE, label = ''client.ts'', metadata = None\<rparr>}"
proof -
  have fl: "functionListOf [''getUser''] \<noteq> []"
    by code_simp
  have own: "\<forall>n \<in> set (nodes exampleGraph). startsWith (id_node n) ''A'' \<longrightarrow> idRepoId (id_node n) = ''A''"
    by (simp add: exampleGraph_def startsWith_def idRepoId_def)
  have cands: "take 500 (filter (\<lambda>n. type_node n = FILE \<and> idRepoId (id_node n) \<noteq> ''A''
                                       \<and> sourceExtension (id_node n)) (nodes exampleGraph))
      = [\<lparr>id_node = ''B:src/client.ts'', type_node = FILE, label = ''client.ts'', metadata = None\<rparr>]"
    by (simp add: exampleGraph_def idRepoId_def sourceExtension_def endsWith_def)
  have "\<forall>x. x \<in> set (scanned exampleGraph ''A'' [''getUser''])
          \<longleftrightarrow> find (\<lambda>y. normalizedId y = normalizedId x)
                [\<lparr>id_node = ''B:src/client.ts'', type_node = FILE, label = ''client.ts'', metadata = None\<rparr>]
              = Some x"
    using scan_candidates [of exampleGraph "''A''" "[''getUser'']"] fl own
    unfolding cands by blast
  then show ?thesis
    by (auto split: if_splits)
qed

text \<open>
  C9, as stated, fails: \<open>B:src/util.ts\<close> is a FILE node of another repository with a
  source extension, second in the graph, and it is not scanned, because the id of
  \<open>B:src/Util.ts\<close> before it is the same once in lower case; the use of \<open>getUser\<close>
  in it is not reported.
\<close>

theorem scan_skips_variant_counterexample:
  "nodes exampleVariants
     = [\<lparr>id_node = ''B:src/Util.ts'', type_node = FILE, label = ''Util.ts'', metadata = None\<rparr>,
        \<lparr>id_node = ''B:src/util.ts'', type_node = FILE, label = ''util.ts'', metadata = None\<rparr>] \<and>
   idRepoId ''B:src/util.ts'' = ''B'' \<and>
   sourceExtension ''B:src/util.ts'' \<and>
   scanned exampleVariants ''A'' [''getUser'']
     = [\<lparr>id_node = ''B:src/Util.ts'', type_node = FILE, label = ''Util.ts'', metadata = None\<rparr>] \<and>
   exampleVariantFiles ''B'' ''src/util.ts'' = Some ''getUser(1)'' \<and>
   regexTest ''getUser'' ''getUser(1)'' \<and>
   searchForAffectedFiles exampleVariantFiles exampleVariants ''A'' [''getUser''] = []"
proof (intro conjI)
  show "nodes exampleVariants
     = [\<lparr>id_node = ''B:src/Util.ts'', type_node = FILE, label = ''Util.ts'', metadata = None\<rparr>,
        \<lparr>id_node = ''B:src/util.ts'', type_node = FILE, label = ''util.ts'', metadata = None\<rparr>]"
    by (simp add: exampleVariants_def)
  show "idRepoId ''B:src/util.ts'' = ''B''" by code_simp
  show "sourceExtension ''B:src/util.ts''" by code_simp
  show "scanned exampleVariants ''A'' [''getUser'']
     = [\<lparr>id_node = ''B:src/Util.ts'', type_node = FILE, label = ''Util.ts'', metadata = None\<rparr>]"
    by code_simp
  show "exampleVariantFiles ''B'' ''src/util.ts'' = Some ''getUser(1)''" by code_simp
  show "regexTest ''getUser'' ''getUser(1)''" by code_simp
  show "searchForAffectedFiles exampleVariantFiles exampleVariants ''A'' [''getUser''] = []"
    by code_simp
qed

text \<open>
  The test for "another repository" in the scan is \<open>!id.startsWith(sourceRepoId)\<close>: a
  file of repository \<open>repo10\<close> is no candidate when the source repository is \<open>repo1\<close>.
\<close>

lemma otherRepoFiles_prefix_example:
  "otherRepoFiles
     \<lparr>nodes = [\<lparr>id_node = ''repo10:src/a.ts'', type_node = FILE, label = ''a.ts'', metadata = None\<rparr>],
      edges = []\<rparr> ''repo1'' = [] \<and>
   idRepoId ''repo10:src/a.ts'' = ''repo10''"
  by code_simp

end
